theory Spec2Isabelle
  imports Main "HOL-Library.Char_ord" "HOL-Library.List_Lexorder"
begin

section \<open>Characters\<close>

text \<open>
  Program text is a list of 8-bit characters and is read as ASCII: the classes
  \<open>\w\<close>, \<open>\s\<close> and the case mapping below are the ASCII parts of
  Python's, and a character above 127 is neither a word character nor white space
  and has no other case.
\<close>

definition is_upper :: "char \<Rightarrow> bool" where
  "is_upper c = (CHR ''A'' \<le> c \<and> c \<le> CHR ''Z'')"

definition is_lower :: "char \<Rightarrow> bool" where
  "is_lower c = (CHR ''a'' \<le> c \<and> c \<le> CHR ''z'')"

definition is_digit :: "char \<Rightarrow> bool" where
  "is_digit c = (CHR ''0'' \<le> c \<and> c \<le> CHR ''9'')"

text \<open>\<open>\w\<close>: letters, digits and the underscore.\<close>

definition is_word :: "char \<Rightarrow> bool" where
  "is_word c = (is_upper c \<or> is_lower c \<or> is_digit c \<or> c = CHR ''_'')"

text \<open>\<open>\s\<close> and \<open>str.isspace\<close>: blank, TAB..CR and the separators 0x1C..0x1F.\<close>

definition is_space :: "char \<Rightarrow> bool" where
  "is_space c = (c = CHR '' '' \<or> (CHR 0x09 \<le> c \<and> c \<le> CHR 0x0D)
                 \<or> (CHR 0x1C \<le> c \<and> c \<le> CHR 0x1F))"

text \<open>\<open>str.lower\<close> on one character.\<close>

definition lower :: "char \<Rightarrow> char" where
  "lower c = (if is_upper c then char_of (of_char c + (32::nat)) else c)"

text \<open>
  The same function on the bits of the character: an upper-case letter has bit 5 clear,
  and its lower-case letter is the character with bit 5 set. Evaluation uses this equation.
\<close>

lemma lower_Char [code]:
  "lower (Char b0 b1 b2 b3 b4 b5 b6 b7) =
     (if is_upper (Char b0 b1 b2 b3 b4 b5 b6 b7) then Char b0 b1 b2 b3 b4 True b6 b7
      else Char b0 b1 b2 b3 b4 b5 b6 b7)"
  by (cases b0; cases b1; cases b2; cases b3; cases b4; cases b5; cases b6; cases b7;
      simp add: lower_def is_upper_def; code_simp)

text \<open>Equality of a pattern character and a text character, under \<open>re.IGNORECASE\<close> or not.\<close>

definition ceq :: "bool \<Rightarrow> char \<Rightarrow> char \<Rightarrow> bool" where
  "ceq ic a x = (if ic then lower a = lower x else a = x)"


section \<open>The regular expressions of the program\<close>

text \<open>
  The patterns of \<open>app.py\<close> use literals, one-character classes and their
  repetitions (greedy or lazy), sequence, alternation, named groups, \<open>\b\<close>,
  a negative lookahead and a negative lookbehind of one character.
\<close>

datatype cclass = Dot | WordC | SpaceC | NotC char | IdentC

fun in_class :: "cclass \<Rightarrow> char \<Rightarrow> bool" where
  "in_class Dot c = True"
| "in_class WordC c = is_word c"
| "in_class SpaceC c = is_space c"
| "in_class (NotC x) c = (c \<noteq> x)"
| "in_class IdentC c = (is_upper c \<or> is_lower c \<or> is_digit c \<or> c = CHR ''_'')"

datatype re =
    Lit string
  | Cls cclass
  | Star bool cclass
  | Seq re re
  | Alt re re
  | Eps
  | Grp string re
  | WordB
  | NotAhead re
  | NotBehind cclass

text \<open>\<open>Star True c\<close> is the greedy \<open>c*\<close>, \<open>Star False c\<close> the lazy \<open>c*?\<close>.\<close>

definition Plus :: "bool \<Rightarrow> cclass \<Rightarrow> re" where
  "Plus g c = Seq (Cls c) (Star g c)"

definition Opt :: "re \<Rightarrow> re" where
  "Opt r = Alt r Eps"

fun seqs :: "re list \<Rightarrow> re" where
  "seqs [] = Eps"
| "seqs [r] = r"
| "seqs (r # rs) = Seq r (seqs rs)"


section \<open>A backtracking matcher\<close>

text \<open>
  The matcher explores the alternatives in the order of Python's \<open>re\<close>: the first
  alternative first, a greedy repetition longest first, a lazy one shortest first. It is
  written with a continuation for the rest of the pattern. A position in the text is the
  offset \<open>p\<close>, the character before it (for \<open>\b\<close> and the lookbehind) and the
  text from \<open>p\<close> on; the groups closed so far are kept with their spans.
\<close>

type_synonym caps = "(string \<times> nat \<times> nat) list"
type_synonym mres = "nat \<times> char option \<times> string \<times> caps"
type_synonym cont = "nat \<Rightarrow> char option \<Rightarrow> string \<Rightarrow> caps \<Rightarrow> mres option"

definition accept :: cont where
  "accept p pv s cs = Some (p, pv, s, cs)"

definition word_opt :: "char option \<Rightarrow> bool" where
  "word_opt x = (case x of None \<Rightarrow> False | Some c \<Rightarrow> is_word c)"

fun first_char :: "string \<Rightarrow> char option" where
  "first_char [] = None"
| "first_char (x # xs) = Some x"

fun lit :: "bool \<Rightarrow> string \<Rightarrow> cont \<Rightarrow> cont" where
  "lit ic [] k p pv s cs = k p pv s cs"
| "lit ic (a # as) k p pv [] cs = None"
| "lit ic (a # as) k p pv (x # xs) cs =
     (if ceq ic a x then lit ic as k (p + 1) (Some x) xs cs else None)"

fun star_greedy :: "cclass \<Rightarrow> cont \<Rightarrow> cont" where
  "star_greedy c k p pv [] cs = k p pv [] cs"
| "star_greedy c k p pv (x # xs) cs =
     (if in_class c x
      then (case star_greedy c k (p + 1) (Some x) xs cs of
              Some r \<Rightarrow> Some r
            | None \<Rightarrow> k p pv (x # xs) cs)
      else k p pv (x # xs) cs)"

fun star_lazy :: "cclass \<Rightarrow> cont \<Rightarrow> cont" where
  "star_lazy c k p pv [] cs = k p pv [] cs"
| "star_lazy c k p pv (x # xs) cs =
     (case k p pv (x # xs) cs of
        Some r \<Rightarrow> Some r
      | None \<Rightarrow> if in_class c x then star_lazy c k (p + 1) (Some x) xs cs else None)"

fun re_m :: "bool \<Rightarrow> re \<Rightarrow> cont \<Rightarrow> cont" where
  "re_m ic (Lit l) k p pv s cs = lit ic l k p pv s cs"
| "re_m ic (Cls c) k p pv s cs =
     (case s of
        [] \<Rightarrow> None
      | x # xs \<Rightarrow> if in_class c x then k (p + 1) (Some x) xs cs else None)"
| "re_m ic (Star g c) k p pv s cs =
     (if g then star_greedy c k p pv s cs else star_lazy c k p pv s cs)"
| "re_m ic (Seq a b) k p pv s cs = re_m ic a (re_m ic b k) p pv s cs"
| "re_m ic (Alt a b) k p pv s cs =
     (case re_m ic a k p pv s cs of
        Some r \<Rightarrow> Some r
      | None \<Rightarrow> re_m ic b k p pv s cs)"
| "re_m ic Eps k p pv s cs = k p pv s cs"
| "re_m ic (Grp n r) k p pv s cs =
     re_m ic r (\<lambda>p' pv' s' cs'. k p' pv' s' ((n, p, p') # cs')) p pv s cs"
| "re_m ic WordB k p pv s cs =
     (if word_opt pv \<noteq> word_opt (first_char s) then k p pv s cs else None)"
| "re_m ic (NotAhead r) k p pv s cs =
     (case re_m ic r accept p pv s cs of
        Some _ \<Rightarrow> None
      | None \<Rightarrow> k p pv s cs)"
| "re_m ic (NotBehind c) k p pv s cs =
     (case pv of
        None \<Rightarrow> k p pv s cs
      | Some x \<Rightarrow> if in_class c x then None else k p pv s cs)"

section \<open>What a pattern matches\<close>

text \<open>
  The meaning of a pattern, independent of the search order: \<open>accepts ic r pv u v\<close>
  says that \<open>r\<close> matches the text \<open>u\<close> when the character before it is
  \<open>pv\<close> and the text after it is \<open>v\<close>. The matcher finds a match exactly
  when there is one (\<open>re_m_correct\<close>).
\<close>

fun last_of :: "char option \<Rightarrow> string \<Rightarrow> char option" where
  "last_of pv [] = pv"
| "last_of pv (x # xs) = last_of (Some x) xs"

fun accepts :: "bool \<Rightarrow> re \<Rightarrow> char option \<Rightarrow> string \<Rightarrow> string \<Rightarrow> bool" where
  "accepts ic (Lit l) pv u v = list_all2 (ceq ic) l u"
| "accepts ic (Cls c) pv u v = (\<exists>x. u = [x] \<and> in_class c x)"
| "accepts ic (Star g c) pv u v = list_all (in_class c) u"
| "accepts ic (Seq a b) pv u v =
     (\<exists>u1 u2. u = u1 @ u2 \<and> accepts ic a pv u1 (u2 @ v) \<and> accepts ic b (last_of pv u1) u2 v)"
| "accepts ic (Alt a b) pv u v = (accepts ic a pv u v \<or> accepts ic b pv u v)"
| "accepts ic Eps pv u v = (u = [])"
| "accepts ic (Grp n r) pv u v = accepts ic r pv u v"
| "accepts ic WordB pv u v = (u = [] \<and> word_opt pv \<noteq> word_opt (first_char v))"
| "accepts ic (NotAhead r) pv u v =
     (u = [] \<and> \<not> (\<exists>w1 w2. v = w1 @ w2 \<and> accepts ic r pv w1 w2))"
| "accepts ic (NotBehind c) pv u v =
     (u = [] \<and> (case pv of None \<Rightarrow> True | Some x \<Rightarrow> \<not> in_class c x))"

lemma last_of_append [simp]: "last_of pv (u @ w) = last_of (last_of pv u) w"
  by (induction u arbitrary: pv) auto

lemma lit_sound:
  "lit ic l k p pv s cs = Some res \<Longrightarrow>
   \<exists>u v. s = u @ v \<and> list_all2 (ceq ic) l u \<and> k (p + length u) (last_of pv u) v cs = Some res"
proof (induction l arbitrary: p pv s)
  case Nil
  then show ?case by auto
next
  case (Cons a as)
  show ?case
  proof (cases s)
    case Nil
    with Cons.prems show ?thesis by simp
  next
    case (Cons x xs)
    with Cons.prems have c: "ceq ic a x" and r: "lit ic as k (p + 1) (Some x) xs cs = Some res"
      by (auto split: if_splits)
    from Cons.IH[OF r] obtain u v where
      "xs = u @ v" "list_all2 (ceq ic) as u" "k (p + 1 + length u) (last_of (Some x) u) v cs = Some res"
      by blast
    with c Cons show ?thesis
      by (intro exI[of _ "x # u"] exI[of _ v]) simp
  qed
qed

lemma star_greedy_sound:
  "star_greedy c k p pv s cs = Some res \<Longrightarrow>
   \<exists>u v. s = u @ v \<and> list_all (in_class c) u \<and> k (p + length u) (last_of pv u) v cs = Some res"
proof (induction s arbitrary: p pv)
  case Nil
  then show ?case by auto
next
  case (Cons x xs)
  show ?case
  proof (cases "in_class c x \<and> star_greedy c k (p + 1) (Some x) xs cs \<noteq> None")
    case True
    with Cons.prems have r: "star_greedy c k (p + 1) (Some x) xs cs = Some res"
      by (auto split: option.splits)
    from Cons.IH[OF r] obtain u v where
      "xs = u @ v" "list_all (in_class c) u" "k (p + 1 + length u) (last_of (Some x) u) v cs = Some res"
      by blast
    with True show ?thesis
      by (intro exI[of _ "x # u"] exI[of _ v]) simp
  next
    case False
    with Cons.prems have "k p pv (x # xs) cs = Some res"
      by (auto split: option.splits if_splits)
    then show ?thesis
      by (intro exI[of _ "[]"] exI[of _ "x # xs"]) simp
  qed
qed

lemma star_lazy_sound:
  "star_lazy c k p pv s cs = Some res \<Longrightarrow>
   \<exists>u v. s = u @ v \<and> list_all (in_class c) u \<and> k (p + length u) (last_of pv u) v cs = Some res"
proof (induction s arbitrary: p pv)
  case Nil
  then show ?case by auto
next
  case (Cons x xs)
  show ?case
  proof (cases "k p pv (x # xs) cs")
    case (Some r0)
    with Cons.prems have "k p pv (x # xs) cs = Some res" by simp
    then show ?thesis
      by (intro exI[of _ "[]"] exI[of _ "x # xs"]) simp
  next
    case None
    with Cons.prems have i: "in_class c x" and r: "star_lazy c k (p + 1) (Some x) xs cs = Some res"
      by (auto split: if_splits)
    from Cons.IH[OF r] obtain u v where
      "xs = u @ v" "list_all (in_class c) u" "k (p + 1 + length u) (last_of (Some x) u) v cs = Some res"
      by blast
    with i show ?thesis
      by (intro exI[of _ "x # u"] exI[of _ v]) simp
  qed
qed

lemma lit_complete:
  "list_all2 (ceq ic) l u \<Longrightarrow>
   lit ic l k p pv (u @ v) cs = k (p + length u) (last_of pv u) v cs"
proof (induction l arbitrary: u p pv)
  case Nil
  then show ?case by simp
next
  case (Cons a as)
  then obtain x xs where u: "u = x # xs" "ceq ic a x" "list_all2 (ceq ic) as xs"
    by (auto simp: list_all2_Cons1)
  from Cons.IH[OF u(3)] u show ?case by simp
qed

lemma star_greedy_complete:
  "list_all (in_class c) u \<Longrightarrow> k (p + length u) (last_of pv u) v cs \<noteq> None \<Longrightarrow>
   star_greedy c k p pv (u @ v) cs \<noteq> None"
proof (induction u arbitrary: p pv)
  case Nil
  then show ?case by (cases v) (auto split: option.splits)
next
  case (Cons x xs)
  from Cons.prems have "star_greedy c k (p + 1) (Some x) (xs @ v) cs \<noteq> None"
    by (intro Cons.IH) auto
  with Cons.prems show ?case by (auto split: option.splits)
qed

lemma star_lazy_complete:
  "list_all (in_class c) u \<Longrightarrow> k (p + length u) (last_of pv u) v cs \<noteq> None \<Longrightarrow>
   star_lazy c k p pv (u @ v) cs \<noteq> None"
proof (induction u arbitrary: p pv)
  case Nil
  then show ?case by (cases v) (auto split: option.splits)
next
  case (Cons x xs)
  from Cons.prems have "star_lazy c k (p + 1) (Some x) (xs @ v) cs \<noteq> None"
    by (intro Cons.IH) auto
  with Cons.prems show ?case by (auto split: option.splits)
qed

definition re_sound :: "bool \<Rightarrow> re \<Rightarrow> bool" where
  "re_sound ic r = (\<forall>k p pv s cs res. re_m ic r k p pv s cs = Some res \<longrightarrow>
     (\<exists>u v cs'. s = u @ v \<and> accepts ic r pv u v \<and>
        k (p + length u) (last_of pv u) v cs' = Some res))"

definition re_complete :: "bool \<Rightarrow> re \<Rightarrow> bool" where
  "re_complete ic r = (\<forall>k p pv u v cs. accepts ic r pv u v \<longrightarrow>
     (\<forall>cs'. k (p + length u) (last_of pv u) v cs' \<noteq> None) \<longrightarrow>
     re_m ic r k p pv (u @ v) cs \<noteq> None)"

lemma re_soundD:
  "re_sound ic r \<Longrightarrow> re_m ic r k p pv s cs = Some res \<Longrightarrow>
   \<exists>u v cs'. s = u @ v \<and> accepts ic r pv u v \<and>
        k (p + length u) (last_of pv u) v cs' = Some res"
  unfolding re_sound_def by blast

lemma re_completeD:
  "re_complete ic r \<Longrightarrow> accepts ic r pv u v \<Longrightarrow>
   (\<And>cs'. k (p + length u) (last_of pv u) v cs' \<noteq> None) \<Longrightarrow>
   re_m ic r k p pv (u @ v) cs \<noteq> None"
  unfolding re_complete_def by blast

lemma re_m_correct: "re_sound ic r \<and> re_complete ic r"
proof (induction r)
  case (Lit l)
  have "re_sound ic (Lit l)"
    unfolding re_sound_def using lit_sound[of ic l] by fastforce
  moreover have "re_complete ic (Lit l)"
    unfolding re_complete_def by (simp add: lit_complete)
  ultimately show ?case ..
next
  case (Cls c)
  have "re_sound ic (Cls c)"
    unfolding re_sound_def
  proof (intro allI impI)
    fix k :: cont and p pv s cs res
    assume a: "re_m ic (Cls c) k p pv s cs = Some res"
    then obtain x xs where s: "s = x # xs" "in_class c x" "k (p + 1) (Some x) xs cs = Some res"
      by (cases s) (auto split: if_splits)
    then show "\<exists>u v cs'. s = u @ v \<and> accepts ic (Cls c) pv u v \<and>
        k (p + length u) (last_of pv u) v cs' = Some res"
      by (intro exI[of _ "[x]"] exI[of _ xs] exI[of _ cs]) simp
  qed
  moreover have "re_complete ic (Cls c)"
    unfolding re_complete_def by auto
  ultimately show ?case ..
next
  case (Star g c)
  have "re_sound ic (Star g c)"
    unfolding re_sound_def
    using star_greedy_sound[of c] star_lazy_sound[of c] by (cases g) fastforce+
  moreover have "re_complete ic (Star g c)"
    unfolding re_complete_def
    using star_greedy_complete[of c] star_lazy_complete[of c] by (cases g) auto
  ultimately show ?case ..
next
  case (Seq a b)
  have "re_sound ic (Seq a b)"
    unfolding re_sound_def
  proof (intro allI impI)
    fix k :: cont and p pv s cs res
    assume "re_m ic (Seq a b) k p pv s cs = Some res"
    then have "re_m ic a (re_m ic b k) p pv s cs = Some res" by simp
    from re_soundD[OF _ this] Seq obtain u1 v1 cs1 where
      1: "s = u1 @ v1" "accepts ic a pv u1 v1"
         "re_m ic b k (p + length u1) (last_of pv u1) v1 cs1 = Some res" by blast
    from re_soundD[OF _ 1(3)] Seq obtain u2 v2 cs2 where
      2: "v1 = u2 @ v2" "accepts ic b (last_of pv u1) u2 v2"
         "k (p + length u1 + length u2) (last_of (last_of pv u1) u2) v2 cs2 = Some res" by blast
    show "\<exists>u v cs'. s = u @ v \<and> accepts ic (Seq a b) pv u v \<and>
        k (p + length u) (last_of pv u) v cs' = Some res"
      using 1 2 by (intro exI[of _ "u1 @ u2"] exI[of _ v2] exI[of _ cs2]) (auto simp: add.assoc)
  qed
  moreover have "re_complete ic (Seq a b)"
    unfolding re_complete_def
  proof (intro allI impI)
    fix k :: cont and p pv u v cs
    assume acc: "accepts ic (Seq a b) pv u v"
      and k: "\<forall>cs'. k (p + length u) (last_of pv u) v cs' \<noteq> None"
    from acc obtain u1 u2 where
      u: "u = u1 @ u2" "accepts ic a pv u1 (u2 @ v)" "accepts ic b (last_of pv u1) u2 v"
      by auto
    have b: "re_m ic b k (p + length u1) (last_of pv u1) (u2 @ v) cs' \<noteq> None" for cs'
      using Seq k u by (intro re_completeD[of ic b]) (auto simp: add.assoc)
    have "re_m ic a (re_m ic b k) p pv (u1 @ (u2 @ v)) cs \<noteq> None"
      using Seq u(2) b by (intro re_completeD[of ic a]) auto
    then show "re_m ic (Seq a b) k p pv (u @ v) cs \<noteq> None"
      using u(1) by simp
  qed
  ultimately show ?case ..
next
  case (Alt a b)
  have "re_sound ic (Alt a b)"
    unfolding re_sound_def
  proof (intro allI impI)
    fix k :: cont and p pv s cs res
    assume a: "re_m ic (Alt a b) k p pv s cs = Some res"
    then have "re_m ic a k p pv s cs = Some res \<or> re_m ic b k p pv s cs = Some res"
      by (auto split: option.splits)
    then show "\<exists>u v cs'. s = u @ v \<and> accepts ic (Alt a b) pv u v \<and>
        k (p + length u) (last_of pv u) v cs' = Some res"
      using Alt re_soundD[of ic a k p pv s cs res] re_soundD[of ic b k p pv s cs res]
      by auto
  qed
  moreover have "re_complete ic (Alt a b)"
    unfolding re_complete_def
  proof (intro allI impI)
    fix k :: cont and p pv u v cs
    assume acc: "accepts ic (Alt a b) pv u v"
      and k: "\<forall>cs'. k (p + length u) (last_of pv u) v cs' \<noteq> None"
    show "re_m ic (Alt a b) k p pv (u @ v) cs \<noteq> None"
    proof (cases "re_m ic a k p pv (u @ v) cs")
      case (Some r0)
      then show ?thesis by simp
    next
      case None
      with Alt k have "\<not> accepts ic a pv u v"
        using re_completeD[of ic a pv u v k p cs] by auto
      with acc have "accepts ic b pv u v" by simp
      with Alt k have "re_m ic b k p pv (u @ v) cs \<noteq> None"
        by (intro re_completeD[of ic b]) auto
      with None show ?thesis by simp
    qed
  qed
  ultimately show ?case ..
next
  case Eps
  have "re_sound ic Eps"
    unfolding re_sound_def
  proof (intro allI impI)
    fix k :: cont and p pv s cs res
    assume "re_m ic Eps k p pv s cs = Some res"
    then show "\<exists>u v cs'. s = u @ v \<and> accepts ic Eps pv u v \<and>
        k (p + length u) (last_of pv u) v cs' = Some res"
      by (intro exI[of _ "[]"] exI[of _ s] exI[of _ cs]) simp
  qed
  moreover have "re_complete ic Eps"
    unfolding re_complete_def by auto
  ultimately show ?case ..
next
  case (Grp n r)
  have "re_sound ic (Grp n r)"
    unfolding re_sound_def
  proof (intro allI impI)
    fix k :: cont and p pv s cs res
    assume "re_m ic (Grp n r) k p pv s cs = Some res"
    then have
      "re_m ic r (\<lambda>p' pv' s' cs'. k p' pv' s' ((n, p, p') # cs')) p pv s cs = Some res" by simp
    from re_soundD[OF _ this] Grp
    show "\<exists>u v cs'. s = u @ v \<and> accepts ic (Grp n r) pv u v \<and>
        k (p + length u) (last_of pv u) v cs' = Some res"
      by auto
  qed
  moreover have "re_complete ic (Grp n r)"
    unfolding re_complete_def
  proof (intro allI impI)
    fix k :: cont and p pv u v cs
    assume acc: "accepts ic (Grp n r) pv u v"
      and k: "\<forall>cs'. k (p + length u) (last_of pv u) v cs' \<noteq> None"
    have "re_m ic r (\<lambda>p' pv' s' cs'. k p' pv' s' ((n, p, p') # cs')) p pv (u @ v) cs \<noteq> None"
      using Grp acc k by (intro re_completeD[of ic r]) auto
    then show "re_m ic (Grp n r) k p pv (u @ v) cs \<noteq> None" by simp
  qed
  ultimately show ?case ..
next
  case WordB
  have "re_sound ic WordB"
    unfolding re_sound_def
  proof (intro allI impI)
    fix k :: cont and p pv s cs res
    assume "re_m ic WordB k p pv s cs = Some res"
    then show "\<exists>u v cs'. s = u @ v \<and> accepts ic WordB pv u v \<and>
        k (p + length u) (last_of pv u) v cs' = Some res"
      by (intro exI[of _ "[]"] exI[of _ s] exI[of _ cs]) (auto split: if_splits)
  qed
  moreover have "re_complete ic WordB"
    unfolding re_complete_def by auto
  ultimately show ?case ..
next
  case (NotAhead r)
  have "re_sound ic (NotAhead r)"
    unfolding re_sound_def
  proof (intro allI impI)
    fix k :: cont and p pv s cs res
    assume "re_m ic (NotAhead r) k p pv s cs = Some res"
    then have n: "re_m ic r accept p pv s cs = None" and k: "k p pv s cs = Some res"
      by (auto split: option.splits)
    have "\<not> (\<exists>w1 w2. s = w1 @ w2 \<and> accepts ic r pv w1 w2)"
    proof
      assume "\<exists>w1 w2. s = w1 @ w2 \<and> accepts ic r pv w1 w2"
      then obtain w1 w2 where w: "s = w1 @ w2" "accepts ic r pv w1 w2" by blast
      have "re_m ic r accept p pv (w1 @ w2) cs \<noteq> None"
        using NotAhead w(2) by (intro re_completeD[of ic r]) (auto simp: accept_def)
      with n w(1) show False by simp
    qed
    with k show "\<exists>u v cs'. s = u @ v \<and> accepts ic (NotAhead r) pv u v \<and>
        k (p + length u) (last_of pv u) v cs' = Some res"
      by (intro exI[of _ "[]"] exI[of _ s] exI[of _ cs]) simp
  qed
  moreover have "re_complete ic (NotAhead r)"
    unfolding re_complete_def
  proof (intro allI impI)
    fix k :: cont and p pv u v cs
    assume acc: "accepts ic (NotAhead r) pv u v"
      and k: "\<forall>cs'. k (p + length u) (last_of pv u) v cs' \<noteq> None"
    from acc have u: "u = []" and no: "\<not> (\<exists>w1 w2. v = w1 @ w2 \<and> accepts ic r pv w1 w2)"
      by auto
    have "re_m ic r accept p pv v cs = None"
    proof (cases "re_m ic r accept p pv v cs")
      case None
      then show ?thesis .
    next
      case (Some res)
      from re_soundD[OF _ this] NotAhead no show ?thesis by blast
    qed
    with k u show "re_m ic (NotAhead r) k p pv (u @ v) cs \<noteq> None" by simp
  qed
  ultimately show ?case ..
next
  case (NotBehind c)
  have "re_sound ic (NotBehind c)"
    unfolding re_sound_def
  proof (intro allI impI)
    fix k :: cont and p pv s cs res
    assume "re_m ic (NotBehind c) k p pv s cs = Some res"
    then show "\<exists>u v cs'. s = u @ v \<and> accepts ic (NotBehind c) pv u v \<and>
        k (p + length u) (last_of pv u) v cs' = Some res"
      by (intro exI[of _ "[]"] exI[of _ s] exI[of _ cs]) (auto split: option.splits if_splits)
  qed
  moreover have "re_complete ic (NotBehind c)"
    unfolding re_complete_def by (auto split: option.splits)
  ultimately show ?case ..
qed


section \<open>Searching\<close>

text \<open>
  \<open>pattern.search\<close>: the leftmost position at which the pattern matches, with the
  start of the match and the state at its end.
\<close>

fun re_search_at :: "bool \<Rightarrow> re \<Rightarrow> nat \<Rightarrow> char option \<Rightarrow> string \<Rightarrow> (nat \<times> mres) option" where
  "re_search_at ic r p pv [] =
     (case re_m ic r accept p pv [] [] of
        Some m \<Rightarrow> Some (p, m)
      | None \<Rightarrow> None)"
| "re_search_at ic r p pv (x # xs) =
     (case re_m ic r accept p pv (x # xs) [] of
        Some m \<Rightarrow> Some (p, m)
      | None \<Rightarrow> re_search_at ic r (p + 1) (Some x) xs)"

text \<open>A match as the program reads it: its span and its groups.\<close>

type_synonym rmatch = "nat \<times> nat \<times> caps"

definition re_search :: "bool \<Rightarrow> re \<Rightarrow> string \<Rightarrow> rmatch option" where
  "re_search ic r s =
     (case re_search_at ic r 0 None s of
        None \<Rightarrow> None
      | Some (st, e, pv', s', cs) \<Rightarrow> Some (st, e, cs))"

lemma re_m_accept_sound:
  assumes "re_m ic r accept p pv s cs = Some (e, pv', s', cs')"
  shows "\<exists>u. s = u @ s' \<and> accepts ic r pv u s' \<and> e = p + length u \<and> pv' = last_of pv u"
proof -
  have "re_sound ic r" using re_m_correct by blast
  from re_soundD[OF this assms] show ?thesis
    by (auto simp: accept_def)
qed

lemma re_m_accept_complete:
  assumes "accepts ic r pv u v"
  shows "re_m ic r accept p pv (u @ v) cs \<noteq> None"
proof -
  have "re_complete ic r" using re_m_correct by blast
  from re_completeD[OF this assms, of accept p cs] show ?thesis
    by (simp add: accept_def)
qed

lemma re_search_at_sound:
  "re_search_at ic r p pv s = Some (st, e, pv', s', cs) \<Longrightarrow>
   \<exists>pre u. s = pre @ u @ s' \<and> st = p + length pre \<and> e = st + length u \<and>
     accepts ic r (last_of pv pre) u s' \<and> pv' = last_of pv (pre @ u)"
proof (induction s arbitrary: p pv)
  case Nil
  then have "re_m ic r accept p pv [] [] = Some (e, pv', s', cs)" and "st = p"
    by (auto split: option.splits)
  from re_m_accept_sound[OF this(1)] obtain u where
    "[] = u @ s'" "accepts ic r pv u s'" "e = p + length u" "pv' = last_of pv u" by blast
  with \<open>st = p\<close> show ?case
    by (intro exI[of _ "[]"] exI[of _ u]) simp
next
  case (Cons x xs)
  show ?case
  proof (cases "re_m ic r accept p pv (x # xs) []")
    case None
    with Cons.prems have "re_search_at ic r (p + 1) (Some x) xs = Some (st, e, pv', s', cs)"
      by simp
    from Cons.IH[OF this] obtain pre u where
      "xs = pre @ u @ s'" "st = p + 1 + length pre" "e = st + length u"
      "accepts ic r (last_of (Some x) pre) u s'" "pv' = last_of (Some x) (pre @ u)"
      by blast
    then show ?thesis
      by (intro exI[of _ "x # pre"] exI[of _ u]) simp
  next
    case (Some m)
    with Cons.prems have "re_m ic r accept p pv (x # xs) [] = Some (e, pv', s', cs)" and "st = p"
      by auto
    from re_m_accept_sound[OF this(1)] obtain u where
      "x # xs = u @ s'" "accepts ic r pv u s'" "e = p + length u" "pv' = last_of pv u" by blast
    with \<open>st = p\<close> show ?thesis
      by (intro exI[of _ "[]"] exI[of _ u]) simp
  qed
qed

lemma re_search_at_complete:
  "accepts ic r (last_of pv pre) u v \<Longrightarrow> re_search_at ic r p pv (pre @ u @ v) \<noteq> None"
proof (induction pre arbitrary: p pv)
  case Nil
  from re_m_accept_complete[OF Nil[simplified], of p "[]"]
  show ?case by (cases "u @ v") (auto split: option.splits)
next
  case (Cons x xs)
  from Cons.IH[of "Some x" "p + 1"] Cons.prems
  show ?case by (auto split: option.splits)
qed

lemma re_search_at_length:
  assumes "re_search_at ic r p pv s = Some (st, e, pv', s', cs)"
  shows "e + length s' = p + length s" and "p \<le> st" and "st \<le> e"
    and "e \<noteq> st \<Longrightarrow> length s' < length s" and "length s' \<le> length s"
  using re_search_at_sound[OF assms] by auto

text \<open>
  \<open>pattern.finditer\<close>: the matches from left to right, each search starting
  where the match before ended. After an empty match the scan moves on by one character;
  no pattern of the program matches the empty text, so that branch is never taken here.
\<close>

function finditer_at :: "bool \<Rightarrow> re \<Rightarrow> nat \<Rightarrow> char option \<Rightarrow> string \<Rightarrow> rmatch list" where
  "finditer_at ic r p pv s =
     (case re_search_at ic r p pv s of
        None \<Rightarrow> []
      | Some (st, e, pv', s', cs) \<Rightarrow>
          (st, e, cs) #
          (if e = st
           then (case s' of [] \<Rightarrow> [] | x # xs \<Rightarrow> finditer_at ic r (e + 1) (Some x) xs)
           else finditer_at ic r e pv' s'))"
  by pat_completeness auto
termination
proof (relation "measure (\<lambda>(ic, r, p, pv, s). length s)")
  show "wf (measure (\<lambda>(ic, r, p, pv, s). length s))" by simp
next
  fix ic r p pv s x2 st y e ya pv' yb s' cs x xs
  assume "re_search_at ic r p pv s = Some x2" "(st, y) = x2" "(e, ya) = y" "(pv', yb) = ya"
    "(s', cs) = yb" "e = st" "s' = x # xs"
  then have "re_search_at ic r p pv s = Some (st, e, pv', x # xs, cs)" by simp
  from re_search_at_length(5)[OF this]
  show "((ic, r, e + 1, Some x, xs), ic, r, p, pv, s) \<in> measure (\<lambda>(ic, r, p, pv, s). length s)"
    by simp
next
  fix ic r p pv s x2 st y e ya pv' yb s' cs
  assume "re_search_at ic r p pv s = Some x2" "(st, y) = x2" "(e, ya) = y" "(pv', yb) = ya"
    "(s', cs) = yb" "e \<noteq> st"
  then have "re_search_at ic r p pv s = Some (st, e, pv', s', cs)" by simp
  from re_search_at_length(4)[OF this \<open>e \<noteq> st\<close>]
  show "((ic, r, e, pv', s'), ic, r, p, pv, s) \<in> measure (\<lambda>(ic, r, p, pv, s). length s)"
    by simp
qed

definition finditer :: "bool \<Rightarrow> re \<Rightarrow> string \<Rightarrow> rmatch list" where
  "finditer ic r s = finditer_at ic r 0 None s"

declare finditer_at.simps [simp del]

lemma finditer_at_None:
  "re_search_at ic r p pv s = None \<Longrightarrow> finditer_at ic r p pv s = []"
  by (subst finditer_at.simps) simp

lemma finditer_at_Some:
  "re_search_at ic r p pv s = Some (st, e, pv', s', cs) \<Longrightarrow> e \<noteq> st \<Longrightarrow>
   finditer_at ic r p pv s = (st, e, cs) # finditer_at ic r e pv' s'"
  by (subst finditer_at.simps) simp


lemma re_search_at_match:
  "re_search_at ic r p pv s = Some (st, e, pv', s', cs) \<Longrightarrow>
   \<exists>pre rest. s = pre @ rest \<and> st = p + length pre \<and>
     re_m ic r accept st (last_of pv pre) rest [] = Some (e, pv', s', cs)"
proof (induction s arbitrary: p pv)
  case Nil
  then show ?case
    by (intro exI[of _ "[]"]) (auto split: option.splits)
next
  case (Cons x xs)
  show ?case
  proof (cases "re_m ic r accept p pv (x # xs) []")
    case None
    with Cons.prems have "re_search_at ic r (p + 1) (Some x) xs = Some (st, e, pv', s', cs)"
      by simp
    from Cons.IH[OF this] obtain pre rest where
      "xs = pre @ rest" "st = p + 1 + length pre"
      "re_m ic r accept st (last_of (Some x) pre) rest [] = Some (e, pv', s', cs)"
      by blast
    then show ?thesis
      by (intro exI[of _ "x # pre"] exI[of _ rest]) simp
  next
    case (Some m)
    with Cons.prems show ?thesis
      by (intro exI[of _ "[]"] exI[of _ "x # xs"]) auto
  qed
qed

lemma finditer_at_match:
  "m \<in> set (finditer_at ic r p pv s) \<Longrightarrow>
   \<exists>pre rest pv' s'. s = pre @ rest \<and> fst m = p + length pre \<and>
     re_m ic r accept (fst m) (last_of pv pre) rest [] = Some (fst (snd m), pv', s', snd (snd m))"
proof (induction ic r p pv s rule: finditer_at.induct)
  case (1 ic r p pv s)
  show ?case
  proof (cases "re_search_at ic r p pv s")
    case None
    with "1.prems" show ?thesis by (simp add: finditer_at_None)
  next
    case (Some x)
    then obtain st e pv1 s1 cs where x: "re_search_at ic r p pv s = Some (st, e, pv1, s1, cs)"
      by (cases x) auto
    from re_search_at_match[OF x] obtain pre0 rest0 where 0:
      "s = pre0 @ rest0" "st = p + length pre0"
      "re_m ic r accept st (last_of pv pre0) rest0 [] = Some (e, pv1, s1, cs)" by blast
    from re_search_at_sound[OF x] obtain pre u where u:
      "s = pre @ u @ s1" "st = p + length pre" "e = st + length u" "pv1 = last_of pv (pre @ u)"
      by blast
    show ?thesis
    proof (cases "m = (st, e, cs)")
      case True
      with 0 show ?thesis by auto
    next
      case False
      show ?thesis
      proof (cases "e = st")
        case True
        with False "1.prems" x obtain y ys where s1: "s1 = y # ys"
          and m: "m \<in> set (finditer_at ic r (e + 1) (Some y) ys)"
          by (subst (asm) finditer_at.simps) (auto split: list.splits)
        from "1.IH"(1)[OF x refl refl refl refl True s1 m] obtain pre2 rest2 pv2 s2 where
          "ys = pre2 @ rest2" "fst m = e + 1 + length pre2"
          "re_m ic r accept (fst m) (last_of (Some y) pre2) rest2 [] =
             Some (fst (snd m), pv2, s2, snd (snd m))" by blast
        with u s1 show ?thesis
          by (intro exI[of _ "pre @ u @ y # pre2"] exI[of _ rest2] exI[of _ pv2] exI[of _ s2])
             simp
      next
        case ne: False
        with False "1.prems" x have m: "m \<in> set (finditer_at ic r e pv1 s1)"
          by (subst (asm) finditer_at.simps) auto
        from "1.IH"(2)[OF x refl refl refl refl ne m] obtain pre2 rest2 pv2 s2 where
          "s1 = pre2 @ rest2" "fst m = e + length pre2"
          "re_m ic r accept (fst m) (last_of pv1 pre2) rest2 [] =
             Some (fst (snd m), pv2, s2, snd (snd m))" by blast
        with u show ?thesis
          by (intro exI[of _ "pre @ u @ pre2"] exI[of _ rest2] exI[of _ pv2] exI[of _ s2])
             simp
      qed
    qed
  qed
qed

text \<open>The matches of \<open>finditer\<close> lie one after the other.\<close>

lemma finditer_at_ordered:
  "sorted_wrt (\<lambda>a b. fst (snd a) \<le> fst b) (finditer_at ic r p pv s) \<and>
   (\<forall>m\<in>set (finditer_at ic r p pv s). p \<le> fst m)"
proof (induction ic r p pv s rule: finditer_at.induct)
  case (1 ic r p pv s)
  show ?case
  proof (cases "re_search_at ic r p pv s")
    case None
    then show ?thesis by (simp add: finditer_at_None)
  next
    case (Some x)
    then obtain st e pv1 s1 cs where x: "re_search_at ic r p pv s = Some (st, e, pv1, s1, cs)"
      by (cases x) auto
    note len = re_search_at_length[OF x]
    show ?thesis
    proof (cases "e = st")
      case True
      show ?thesis
      proof (cases s1)
        case Nil
        with x True len show ?thesis
          by (subst finditer_at.simps, subst (2) finditer_at.simps) simp
      next
        case (Cons y ys)
        from "1.IH"(1)[OF x refl refl refl refl True Cons]
        have ih: "sorted_wrt (\<lambda>a b. fst (snd a) \<le> fst b) (finditer_at ic r (e + 1) (Some y) ys)"
          "\<forall>m\<in>set (finditer_at ic r (e + 1) (Some y) ys). e + 1 \<le> fst m" by auto
        have eq: "finditer_at ic r p pv s = (st, e, cs) # finditer_at ic r (e + 1) (Some y) ys"
          using x True Cons by (subst finditer_at.simps) simp
        show ?thesis
          unfolding eq using ih len True by fastforce
      qed
    next
      case False
      from "1.IH"(2)[OF x refl refl refl refl False]
      have ih: "sorted_wrt (\<lambda>a b. fst (snd a) \<le> fst b) (finditer_at ic r e pv1 s1)"
        "\<forall>m\<in>set (finditer_at ic r e pv1 s1). e \<le> fst m" by auto
      have eq: "finditer_at ic r p pv s = (st, e, cs) # finditer_at ic r e pv1 s1"
        using x False by (rule finditer_at_Some)
      show ?thesis
        unfolding eq using ih len by fastforce
    qed
  qed
qed


section \<open>The patterns of app.py\<close>

text \<open>
  \<open>SELECT_STAR_RE\<close> is compiled with \<open>re.IGNORECASE | re.DOTALL | re.VERBOSE\<close>
  (the white space of the pattern does not count, and \<open>.\<close> matches every character);
  the others with \<open>re.IGNORECASE\<close>.
\<close>

definition SELECT_STAR_INNER :: re where
  "SELECT_STAR_INNER =
     seqs [Lit ''SELECT'', Plus True SpaceC,
           Opt (seqs [Lit ''SINGLE'', Plus True SpaceC]),
           Lit ''*'', Plus True SpaceC, Lit ''FROM'', Plus True SpaceC,
           Grp ''table'' (Plus True WordC),
           Grp ''body'' (Star False Dot),
           Lit ''.'']"

definition SELECT_STAR_RE :: re where
  "SELECT_STAR_RE = Grp ''full'' SELECT_STAR_INNER"

definition INTO_TABLE_RE :: re where
  "INTO_TABLE_RE =
     seqs [WordB, Lit ''INTO'', Plus True SpaceC, Lit ''TABLE'', Plus True SpaceC,
           Grp ''name'' (Plus True WordC), WordB]"

definition INTO_WA_RE :: re where
  "INTO_WA_RE =
     seqs [WordB, Lit ''INTO'', Plus True SpaceC, NotAhead (seqs [Lit ''TABLE'', WordB]),
           Grp ''name'' (Plus True WordC), WordB]"

definition LOOP_INTO_RE :: re where
  "LOOP_INTO_RE =
     seqs [Lit ''LOOP'', Plus True SpaceC, Lit ''AT'', Plus True SpaceC,
           Grp ''itab'' (Plus True WordC), Plus True SpaceC, Lit ''INTO'', Plus True SpaceC,
           Grp ''wa'' (Plus True WordC), Star True SpaceC, Lit ''.'']"

definition LOOP_ASSIGNING_RE :: re where
  "LOOP_ASSIGNING_RE =
     seqs [Lit ''LOOP'', Plus True SpaceC, Lit ''AT'', Plus True SpaceC,
           Grp ''itab'' (Plus True WordC), Plus True SpaceC, Lit ''ASSIGNING'',
           Plus True SpaceC, Lit ''<'', Grp ''fs'' (Plus True WordC), Lit ''>'',
           Star True SpaceC, Lit ''.'']"

definition READ_TABLE_INTO_RE :: re where
  "READ_TABLE_INTO_RE =
     seqs [Lit ''READ'', Plus True SpaceC, Lit ''TABLE'', Plus True SpaceC,
           Grp ''itab'' (Plus True WordC), Star True (NotC CHR ''.''), Plus True SpaceC,
           Lit ''INTO'', Plus True SpaceC, Grp ''wa'' (Plus True WordC),
           Star True SpaceC, Lit ''.'']"

definition READ_TABLE_ASSIGNING_RE :: re where
  "READ_TABLE_ASSIGNING_RE =
     seqs [Lit ''READ'', Plus True SpaceC, Lit ''TABLE'', Plus True SpaceC,
           Grp ''itab'' (Plus True WordC), Star True (NotC CHR ''.''), Plus True SpaceC,
           Lit ''ASSIGNING'', Plus True SpaceC, Lit ''<'', Grp ''fs'' (Plus True WordC),
           Lit ''>'', Star True SpaceC, Lit ''.'']"

definition ASSIGN_FS_ITAB_RE :: re where
  "ASSIGN_FS_ITAB_RE =
     seqs [Lit ''ASSIGN'', Plus True SpaceC, Grp ''itab'' (Plus True WordC),
           Star True SpaceC, Lit ''['', Star True (NotC CHR '']''), Lit '']'',
           Plus True SpaceC, Lit ''TO'', Plus True SpaceC, Lit ''<'',
           Grp ''fs'' (Plus True WordC), Lit ''>'', Star True SpaceC, Lit ''.'']"

definition HEADER_LINE_LOOP_RE :: re where
  "HEADER_LINE_LOOP_RE =
     seqs [Lit ''LOOP'', Plus True SpaceC, Lit ''AT'', Plus True SpaceC,
           Grp ''itab'' (Plus True WordC), Star True SpaceC, Lit ''.'']"

text \<open>
  \<open>STRUCT_FIELD_RE_TMPL.format(name=re.escape(n))\<close>: the name, taken literally,
  between a lookbehind and a lookahead for an identifier character.
\<close>

definition STRUCT_FIELD_RE :: "string \<Rightarrow> re" where
  "STRUCT_FIELD_RE n =
     seqs [NotBehind IdentC, Lit n, Lit ''-'', Grp ''field'' (Plus True IdentC),
           NotAhead (Cls IdentC)]"

text \<open>
  The pattern of the ambiguity check of \<open>collect_used_fields\<close>:
  \<open>ASSIGN\s+COMPONENT\s+\w+\s+OF\s+STRUCTURE\s+\<close>, the escaped name and \<open>\b\<close>.
\<close>

definition ASSIGN_COMPONENT_RE :: "string \<Rightarrow> re" where
  "ASSIGN_COMPONENT_RE n =
     seqs [Lit ''ASSIGN'', Plus True SpaceC, Lit ''COMPONENT'', Plus True SpaceC,
           Plus True WordC, Plus True SpaceC, Lit ''OF'', Plus True SpaceC,
           Lit ''STRUCTURE'', Plus True SpaceC, Lit n, WordB]"

text \<open>The head pattern of \<open>build_replacement_stmt\<close>.\<close>

definition HEAD_RE :: re where
  "HEAD_RE =
     seqs [Lit ''SELECT'', Plus True SpaceC, Opt (seqs [Lit ''SINGLE'', Plus True SpaceC]),
           Lit ''*'', Plus True SpaceC, Lit ''FROM'', Plus True SpaceC, Plus True WordC]"


section \<open>The data of app.py\<close>

record Unit =
  pgm_name :: string
  inc_name :: string
  type :: string
  name :: "string option"
  class_implementation :: "string option"
  start_line :: "int option"
  end_line :: "int option"
  code :: "string option"

text \<open>\<open>u.code or ""\<close>.\<close>

definition code_or_empty :: "Unit \<Rightarrow> string" where
  "code_or_empty u = (case code u of None \<Rightarrow> [] | Some c \<Rightarrow> c)"

datatype ttype = Itab | Wa | Implicit

text \<open>
  The dictionaries of \<open>find_selects\<close> and of the endpoints share the keys
  \<open>table\<close>, \<open>target_type\<close> and \<open>target_name\<close>.
\<close>

record sel_target =
  table :: string
  target_type :: ttype
  target_name :: string

record sel = sel_target +
  sel_text :: string
  span :: "nat \<times> nat"

record sel_result = sel_target +
  start_char_in_unit :: nat
  end_char_in_unit :: nat
  used_fields :: "string list"
  ambiguous :: bool
  suggested_fields :: "string list option"
  suggested_statement :: "string option"


section \<open>The functions of app.py\<close>

text \<open>\<open>s[a:b]\<close> for offsets \<open>0 \<le> a\<close>, \<open>0 \<le> b\<close>.\<close>

definition slice :: "string \<Rightarrow> nat \<Rightarrow> nat \<Rightarrow> string" where
  "slice s a b = take (b - a) (drop a s)"

text \<open>
  \<open>m.group(n)\<close> of a match in \<open>s\<close>. Every named group of the patterns above lies on
  every path through its pattern, so a match always binds it; for a name that is not
  bound the model returns the empty text.
\<close>

definition group_text :: "string \<Rightarrow> rmatch \<Rightarrow> string \<Rightarrow> string" where
  "group_text s m n =
     (case map_of (snd (snd m)) n of
        None \<Rightarrow> []
      | Some (a, b) \<Rightarrow> slice s a b)"

text \<open>The body of the loop of \<open>find_selects\<close>: the entry for one match.\<close>

definition select_of :: "string \<Rightarrow> rmatch \<Rightarrow> sel" where
  "select_of txt m =
     (let full = group_text txt m ''full'';
          tbl = group_text txt m ''table'';
          body = group_text txt m ''body'';
          mi_tab = re_search True INTO_TABLE_RE body;
          mi_wa = (if mi_tab = None then re_search True INTO_WA_RE body else None)
      in (case mi_tab of
            Some mt \<Rightarrow>
              \<lparr>table = tbl, target_type = Itab, target_name = group_text body mt ''name'',
               sel_text = full, span = (fst m, fst (snd m))\<rparr>
          | None \<Rightarrow>
              (case mi_wa of
                 Some mw \<Rightarrow>
                   \<lparr>table = tbl, target_type = Wa, target_name = group_text body mw ''name'',
                    sel_text = full, span = (fst m, fst (snd m))\<rparr>
               | None \<Rightarrow>
                   \<lparr>table = tbl, target_type = Implicit, target_name = tbl,
                    sel_text = full, span = (fst m, fst (snd m))\<rparr>)))"

definition find_selects :: "string \<Rightarrow> sel list" where
  "find_selects txt = map (select_of txt) (finditer True SELECT_STAR_RE txt)"

text \<open>\<open>aliases.setdefault(owner, set()).add(alias)\<close>.\<close>

definition add_alias ::
  "string \<Rightarrow> string \<Rightarrow> (string \<rightharpoonup> string set) \<Rightarrow> (string \<rightharpoonup> string set)" where
  "add_alias owner alias aliases =
     aliases(owner \<mapsto> insert alias (case aliases owner of None \<Rightarrow> {} | Some A \<Rightarrow> A))"

definition build_aliases :: "string \<Rightarrow> (string \<rightharpoonup> string set)" where
  "build_aliases source =
     (let a1 = fold (\<lambda>m. add_alias (group_text source m ''itab'') (group_text source m ''wa''))
                 (finditer True LOOP_INTO_RE source) Map.empty;
          a2 = fold (\<lambda>m. add_alias (group_text source m ''itab'')
                            (''<'' @ group_text source m ''fs'' @ ''>''))
                 (finditer True LOOP_ASSIGNING_RE source) a1;
          a3 = fold (\<lambda>m. add_alias (group_text source m ''itab'') (group_text source m ''wa''))
                 (finditer True READ_TABLE_INTO_RE source) a2;
          a4 = fold (\<lambda>m. add_alias (group_text source m ''itab'')
                            (''<'' @ group_text source m ''fs'' @ ''>''))
                 (finditer True READ_TABLE_ASSIGNING_RE source) a3;
          a5 = fold (\<lambda>m. add_alias (group_text source m ''itab'')
                            (''<'' @ group_text source m ''fs'' @ ''>''))
                 (finditer True ASSIGN_FS_ITAB_RE source) a4;
          a6 = fold (\<lambda>m. add_alias (group_text source m ''itab'') (group_text source m ''itab''))
                 (finditer True HEADER_LINE_LOOP_RE source) a5
      in a6)"

text \<open>The set \<open>names\<close> of \<open>collect_used_fields\<close>; \<open>aliases.get(target_name, set())\<close>.\<close>

definition target_names ::
  "string \<Rightarrow> ttype \<Rightarrow> string \<Rightarrow> (string \<rightharpoonup> string set) \<Rightarrow> string set" where
  "target_names tbl tt tn aliases =
     (case tt of
        Implicit \<Rightarrow> {tbl}
      | Itab \<Rightarrow> {tn} \<union> (case aliases tn of None \<Rightarrow> {} | Some A \<Rightarrow> A)
      | Wa \<Rightarrow> {tn})"

text \<open>The fields dereferenced on one name: the matches of its pattern, lower-cased.\<close>

definition fields_of_name :: "string \<Rightarrow> string \<Rightarrow> string set" where
  "fields_of_name flat_source n =
     (\<lambda>m. map lower (group_text flat_source m ''field'')) `
       set (finditer False (STRUCT_FIELD_RE n) flat_source)"

text \<open>
  Both loops of \<open>collect_used_fields\<close> run over the set \<open>names\<close>: the first stops at
  the first name with a match, the second collects into a set. The result is written here
  with the quantifier and the union over the set; the last section writes the loops out
  for an arbitrary order of iteration and proves that the order has no part in the result.
\<close>

definition collect_used_fields ::
  "string \<Rightarrow> string \<Rightarrow> string \<Rightarrow> ttype \<Rightarrow> string \<Rightarrow> (string \<rightharpoonup> string set)
     \<Rightarrow> string set \<times> bool" where
  "collect_used_fields flat_source select_stmt_text tbl tt tn aliases =
     (let names = target_names tbl tt tn aliases;
          ambig = (\<exists>n\<in>names. re_search True (ASSIGN_COMPONENT_RE n) flat_source \<noteq> None);
          flds = (\<Union>n\<in>names. fields_of_name flat_source n)
      in (flds, ambig))"

text \<open>\<open>sep.join(xs)\<close> and \<open>str.strip()\<close>.\<close>

fun join :: "string \<Rightarrow> string list \<Rightarrow> string" where
  "join sep [] = []"
| "join sep [x] = x"
| "join sep (x # xs) = x @ sep @ join sep xs"

definition strip :: "string \<Rightarrow> string" where
  "strip s = rev (dropWhile is_space (rev (dropWhile is_space s)))"

text \<open>
  \<open>pattern.sub(repl, s)\<close>: every match replaced by \<open>repl\<close>. The replacement texts
  of the program contain no backslash, so they are inserted as they are.
\<close>

fun splice :: "string \<Rightarrow> nat \<Rightarrow> rmatch list \<Rightarrow> string \<Rightarrow> string" where
  "splice s off [] repl = drop off s"
| "splice s off (m # ms) repl =
     slice s off (fst m) @ repl @ splice s (fst (snd m)) ms repl"

definition re_sub :: "bool \<Rightarrow> re \<Rightarrow> string \<Rightarrow> string \<Rightarrow> string" where
  "re_sub ic r repl s = splice s 0 (finditer ic r s) repl"

text \<open>\<open>re.sub(pattern, repl, s, count=1)\<close>: the first match only.\<close>

definition re_sub1 :: "bool \<Rightarrow> re \<Rightarrow> string \<Rightarrow> string \<Rightarrow> string" where
  "re_sub1 ic r repl s =
     (case re_search ic r s of
        None \<Rightarrow> s
      | Some m \<Rightarrow> take (fst m) s @ repl @ drop (fst (snd m)) s)"

definition nl :: string where
  "nl = [CHR 0x0A]"

definition build_replacement_stmt ::
  "string \<Rightarrow> string \<Rightarrow> string list \<Rightarrow> ttype \<Rightarrow> string \<Rightarrow> string" where
  "build_replacement_stmt stmt tbl flds tt tn =
     (case re_search True HEAD_RE stmt of
        None \<Rightarrow> stmt
      | Some head_m \<Rightarrow>
          let head0 = slice stmt (fst head_m) (fst (snd head_m));
              explicit = (if flds \<noteq> [] then join '' '' (sort flds) else ''*'');
              head = re_sub1 False (Lit ''*'') explicit head0;
              body0 = drop (fst (snd head_m)) stmt;
              body = (if body0 \<noteq> [] \<and> last body0 = CHR ''.'' then butlast body0 else body0);
              into_cf = (case tt of
                           Itab \<Rightarrow> Some (''INTO CORRESPONDING FIELDS OF TABLE '' @ tn)
                         | Wa \<Rightarrow> Some (''INTO CORRESPONDING FIELDS OF '' @ tn)
                         | Implicit \<Rightarrow> None);
              body_wo_into = re_sub True INTO_WA_RE [] (re_sub True INTO_TABLE_RE [] body);
              parts = strip body_wo_into
          in (case into_cf of
                Some cf \<Rightarrow>
                  if parts \<noteq> [] then head @ parts @ nl @ ''  '' @ cf @ ''.''
                  else head @ nl @ ''  '' @ cf @ ''.''
              | None \<Rightarrow> head @ parts @ ''.''))"

text \<open>
  \<open>sorted(repls, key=lambda x: x[0][0], reverse=True)\<close> is a stable sort in descending
  order of the start offset: replacements with the same start keep their order.
\<close>

definition apply_span_replacements ::
  "string \<Rightarrow> ((nat \<times> nat) \<times> string) list \<Rightarrow> string" where
  "apply_span_replacements source repls =
     fold (\<lambda>x out. take (fst (fst x)) out @ snd x @ drop (snd (fst x)) out)
       (rev (sort_key (\<lambda>x. fst (fst x)) (rev repls))) source"

definition concat_units :: "Unit list \<Rightarrow> string" where
  "concat_units units = concat (map (\<lambda>u. code_or_empty u @ nl) units)"

text \<open>The body of the inner loop of \<open>analyze_array\<close>: the finding for one statement.\<close>

definition analyze_sel :: "string \<Rightarrow> (string \<rightharpoonup> string set) \<Rightarrow> sel \<Rightarrow> sel_result" where
  "analyze_sel flat_source aliases s =
     (let (used, ambig) = collect_used_fields flat_source (sel_text s) (table s)
                            (target_type s) (target_name s) aliases;
          sug_fields = (if used \<noteq> {} \<and> \<not> ambig then Some (sorted_list_of_set used) else None);
          sug_stmt = (case sug_fields of
                        None \<Rightarrow> None
                      | Some fs \<Rightarrow>
                          if fs \<noteq> []
                          then Some (build_replacement_stmt (sel_text s) (table s) fs
                                       (target_type s) (target_name s))
                          else None)
      in \<lparr>table = table s, target_type = target_type s, target_name = target_name s,
          start_char_in_unit = fst (span s), end_char_in_unit = snd (span s),
          used_fields = sorted_list_of_set used, ambiguous = ambig,
          suggested_fields = sug_fields, suggested_statement = sug_stmt\<rparr>)"

text \<open>
  \<open>analyze_array\<close> returns, for each unit, the unit's own fields (the JSON round trip
  of the unit) and the list \<open>selects\<close>: a pair of the unit and its findings.
\<close>

definition analyze_array :: "Unit list \<Rightarrow> (Unit \<times> sel_result list) list" where
  "analyze_array units =
     (let flat_source = concat_units units;
          aliases = build_aliases flat_source
      in map (\<lambda>u. (u, map (analyze_sel flat_source aliases) (find_selects (code_or_empty u))))
           units)"

text \<open>The list \<open>replacements\<close> that \<open>remediate_array\<close> builds for one unit.\<close>

definition replacements ::
  "string \<Rightarrow> (string \<rightharpoonup> string set) \<Rightarrow> sel list \<Rightarrow> ((nat \<times> nat) \<times> string) list" where
  "replacements flat_source aliases selects =
     concat (map (\<lambda>s.
       let (used, ambig) = collect_used_fields flat_source (sel_text s) (table s)
                             (target_type s) (target_name s) aliases
       in if used \<noteq> {} \<and> \<not> ambig
          then [(span s, build_replacement_stmt (sel_text s) (table s)
                           (sorted_list_of_set used) (target_type s) (target_name s))]
          else []) selects)"

text \<open>
  \<open>remediate_array\<close> returns, for each unit, the unit's own fields and
  \<open>remediated_code\<close>.
\<close>

definition remediate_array :: "Unit list \<Rightarrow> (Unit \<times> string) list" where
  "remediate_array units =
     (let flat_source = concat_units units;
          aliases = build_aliases flat_source
      in map (\<lambda>u.
           let src = code_or_empty u
           in (u, apply_span_replacements src
                    (replacements flat_source aliases (find_selects src))))
           units)"


section \<open>The scenario of the work area \<open>wa_spfli\<close>\<close>

definition spfli_text :: string where
  "spfli_text =
     ''SELECT * FROM spfli INTO wa_spfli. WRITE wa_spfli-carrid. WRITE wa_spfli-connid.''"

definition spfli_unit :: Unit where
  "spfli_unit =
     \<lparr>pgm_name = ''ZDEMO'', inc_name = ''ZDEMO_TOP'', type = ''PROG'', name = None,
      class_implementation = None, start_line = None, end_line = None,
      code = Some spfli_text\<rparr>"

definition spfli_finding :: sel_result where
  "spfli_finding =
     \<lparr>table = ''spfli'', target_type = Wa, target_name = ''wa_spfli'',
      start_char_in_unit = 0, end_char_in_unit = 34,
      used_fields = [''carrid'', ''connid''], ambiguous = False,
      suggested_fields = Some [''carrid'', ''connid''],
      suggested_statement =
        Some (''SELECT carrid connid FROM spfli'' @ nl @
              ''  INTO CORRESPONDING FIELDS OF wa_spfli.'')\<rparr>"

lemma analyze_one_unit:
  "analyze_array [u] =
     [(u, map (analyze_sel (code_or_empty u @ nl) (build_aliases (code_or_empty u @ nl)))
            (find_selects (code_or_empty u)))]"
  by (simp add: analyze_array_def concat_units_def Let_def)

lemma spfli_findings:
  "map (analyze_sel (spfli_text @ nl) (build_aliases (spfli_text @ nl)))
     (find_selects spfli_text) = [spfli_finding]"
  by code_simp

text \<open>
  C1 (as amended). For the single-unit batch whose text is exactly
  \<open>SELECT * FROM spfli INTO wa_spfli. WRITE wa_spfli-carrid. WRITE wa_spfli-connid.\<close>,
  \<open>analyze_array\<close> returns exactly one finding: table \<open>spfli\<close>, target kind work area,
  target \<open>wa_spfli\<close>, span 0 to 34, used fields \<open>carrid\<close> and \<open>connid\<close>, not ambiguous,
  and the suggested statement is \<open>SELECT carrid connid FROM spfli\<close>, a line break, two
  blanks and \<open>INTO CORRESPONDING FIELDS OF wa_spfli.\<close>: the receiving clause is put on
  a line of its own, not after a single blank.
\<close>

theorem analyze_spfli:
  assumes "code u = Some spfli_text"
  shows "analyze_array [u] = [(u, [spfli_finding])]"
proof -
  from assms have "code_or_empty u = spfli_text"
    by (simp add: code_or_empty_def)
  then show ?thesis
    using spfli_findings by (simp add: analyze_one_unit)
qed

theorem analyze_spfli_witness:
  "code spfli_unit = Some spfli_text \<and>
   analyze_array [spfli_unit] = [(spfli_unit, [spfli_finding])]"
  using analyze_spfli [of spfli_unit] by (simp add: spfli_unit_def)

text \<open>
  The statement as the scenario of the specification gives it, with one blank before
  \<open>INTO\<close>, is not what \<open>analyze_array\<close> suggests.
\<close>

theorem analyze_spfli_counterexample:
  "analyze_array [spfli_unit] = [(spfli_unit, [spfli_finding])] \<and>
   suggested_statement spfli_finding \<noteq>
     Some ''SELECT carrid connid FROM spfli INTO CORRESPONDING FIELDS OF wa_spfli.''"
proof -
  have "code_or_empty spfli_unit = spfli_text"
    by (simp add: code_or_empty_def spfli_unit_def)
  then have "analyze_array [spfli_unit] = [(spfli_unit, [spfli_finding])]"
    using spfli_findings by (simp add: analyze_one_unit)
  then show ?thesis
    by (simp add: spfli_finding_def nl_def)
qed


section \<open>The Locator: spans\<close>

lemma re_m_Grp_caps:
  assumes "re_m ic (Grp n r) accept p pv s [] = Some (e, pv', s', cs)"
  shows "map_of cs n = Some (p, e) \<and> (\<exists>u. s = u @ s' \<and> e = p + length u \<and> accepts ic r pv u s')"
proof -
  from assms have m:
    "re_m ic r (\<lambda>p' pv' s' cs'. accept p' pv' s' ((n, p, p') # cs')) p pv s [] =
       Some (e, pv', s', cs)" by simp
  have snd: "re_sound ic r" using re_m_correct by blast
  from re_soundD[OF snd m] obtain u v cs' where
    "s = u @ v" "accepts ic r pv u v"
    "accept (p + length u) (last_of pv u) v ((n, p, p + length u) # cs') = Some (e, pv', s', cs)"
    by blast
  then show ?thesis by (auto simp: accept_def)
qed

lemma accepts_seqs_Cons:
  "accepts ic (seqs (a # b # rs)) pv u v =
     (\<exists>u1 u2. u = u1 @ u2 \<and> accepts ic a pv u1 (u2 @ v) \<and>
        accepts ic (seqs (b # rs)) (last_of pv u1) u2 v)"
  by simp

lemma accepts_seqsI:
  "accepts ic a pv u1 (u2 @ v) \<Longrightarrow> accepts ic (seqs (b # rs)) (last_of pv u1) u2 v \<Longrightarrow>
   accepts ic (seqs (a # b # rs)) pv (u1 @ u2) v"
  by auto

lemma accepts_seqs_Lit_nonempty:
  assumes "accepts ic (seqs (Lit (c # l) # b # rs)) pv u v"
  shows "u \<noteq> []"
proof -
  from assms obtain u1 u2 where "u = u1 @ u2" "accepts ic (Lit (c # l)) pv u1 (u2 @ v)"
    unfolding accepts_seqs_Cons by blast
  then show ?thesis by (auto simp: list_all2_Cons1)
qed

lemma SELECT_STAR_RE_nonempty:
  assumes "accepts True SELECT_STAR_RE pv u v"
  shows "u \<noteq> []"
  using assms unfolding SELECT_STAR_RE_def SELECT_STAR_INNER_def accepts.simps(7)
  by (rule accepts_seqs_Lit_nonempty)


lemma span_select_of [simp]: "span (select_of txt m) = (fst m, fst (snd m))"
  by (simp add: select_of_def Let_def split: option.splits)

lemma sel_text_select_of [simp]: "sel_text (select_of txt m) = group_text txt m ''full''"
  by (simp add: select_of_def Let_def split: option.splits)

lemma table_select_of [simp]: "table (select_of txt m) = group_text txt m ''table''"
  by (simp add: select_of_def Let_def split: option.splits)

lemma slice_middle [simp]: "slice (pre @ u @ post) (length pre) (length pre + length u) = u"
  by (simp add: slice_def)

lemma find_selects_located:
  assumes "s \<in> set (find_selects txt)"
  shows "\<exists>pre u post. txt = pre @ u @ post \<and> span s = (length pre, length pre + length u) \<and>
           sel_text s = u \<and> accepts True SELECT_STAR_RE (last_of None pre) u post"
proof -
  from assms obtain m where m: "m \<in> set (finditer_at True SELECT_STAR_RE 0 None txt)"
    and s: "s = select_of txt m"
    by (auto simp: find_selects_def finditer_def)
  from finditer_at_match[OF m] obtain pre rest pv' s' where 1:
    "txt = pre @ rest" "fst m = length pre"
    "re_m True SELECT_STAR_RE accept (fst m) (last_of None pre) rest [] =
       Some (fst (snd m), pv', s', snd (snd m))" by auto
  from re_m_Grp_caps[OF 1(3)[unfolded SELECT_STAR_RE_def]]
  obtain u where 2: "map_of (snd (snd m)) ''full'' = Some (fst m, fst (snd m))"
    "rest = u @ s'" "fst (snd m) = fst m + length u"
    "accepts True SELECT_STAR_INNER (last_of None pre) u s'"
    by blast
  from 2(4) have 3: "accepts True SELECT_STAR_RE (last_of None pre) u s'"
    by (simp add: SELECT_STAR_RE_def)
  have "group_text txt m ''full'' = u"
    using 1(1,2) 2(1,2,3) by (simp add: group_text_def)
  with 1(1,2) 2(2,3) 3 s show ?thesis
    by (intro exI[of _ pre] exI[of _ u] exI[of _ s']) simp
qed

lemma find_selects_ordered:
  "sorted_wrt (\<lambda>a b. snd (span a) \<le> fst (span b)) (find_selects txt)"
  using finditer_at_ordered [of True SELECT_STAR_RE 0 None "txt"]
  by (simp add: find_selects_def finditer_def sorted_wrt_map)

text \<open>A unit text with two statements, the second with the single-row modifier.\<close>

definition two_selects_text :: string where
  "two_selects_text =
     ''SELECT * FROM mara INTO TABLE it_mara. SELECT SINGLE * FROM vbak INTO wa_vbak WHERE vbeln = 1.''"

lemma two_selects_spans: "map span (find_selects two_selects_text) = [(0, 38), (39, 94)]"
  by code_simp

text \<open>
  C8. For every unit text, the statements that \<open>find_selects\<close> returns are in source
  order and do not overlap (each ends at or before the start of every later one), each
  span is a non-empty range of offsets into the very text that was passed in, and the
  statement text is the text of the unit at that span.
\<close>

theorem find_selects_spans:
  "(\<forall>s\<in>set (find_selects txt).
      fst (span s) < snd (span s) \<and> snd (span s) \<le> length txt \<and>
      sel_text s = slice txt (fst (span s)) (snd (span s))) \<and>
   sorted_wrt (\<lambda>a b. snd (span a) \<le> fst (span b)) (find_selects txt)"
proof (intro conjI ballI)
  fix s assume "s \<in> set (find_selects txt)"
  from find_selects_located[OF this] obtain pre u post where
    l: "txt = pre @ u @ post" "span s = (length pre, length pre + length u)" "sel_text s = u"
       "accepts True SELECT_STAR_RE (last_of None pre) u post" by blast
  from SELECT_STAR_RE_nonempty[OF l(4)] have "u \<noteq> []" .
  with l show "fst (span s) < snd (span s)" by simp
  from l show "snd (span s) \<le> length txt" by simp
  from l show "sel_text s = slice txt (fst (span s)) (snd (span s))" by simp
next
  show "sorted_wrt (\<lambda>a b. snd (span a) \<le> fst (span b)) (find_selects txt)"
    by (rule find_selects_ordered)
qed


theorem find_selects_spans_witness:
  "map span (find_selects two_selects_text) = [(0, 38), (39, 94)] \<and>
   sorted_wrt (\<lambda>a b. snd (span a) \<le> fst (span b)) (find_selects two_selects_text)"
  using find_selects_spans [of two_selects_text] two_selects_spans
  by blast


section \<open>Searching: when a match exists\<close>

lemma re_search_None_iff:
  "re_search ic r s = None \<longleftrightarrow>
   \<not> (\<exists>pre u post. s = pre @ u @ post \<and> accepts ic r (last_of None pre) u post)"
proof
  assume n: "re_search ic r s = None"
  show "\<not> (\<exists>pre u post. s = pre @ u @ post \<and> accepts ic r (last_of None pre) u post)"
  proof
    assume "\<exists>pre u post. s = pre @ u @ post \<and> accepts ic r (last_of None pre) u post"
    then obtain pre u post where "s = pre @ u @ post" "accepts ic r (last_of None pre) u post"
      by blast
    with re_search_at_complete[of ic r None pre u post 0]
    have "re_search_at ic r 0 None s \<noteq> None" by simp
    with n show False by (auto simp: re_search_def split: option.splits)
  qed
next
  assume a: "\<not> (\<exists>pre u post. s = pre @ u @ post \<and> accepts ic r (last_of None pre) u post)"
  show "re_search ic r s = None"
  proof (cases "re_search_at ic r 0 None s")
    case None
    then show ?thesis by (simp add: re_search_def)
  next
    case (Some x)
    then obtain st e pv' s' cs where "re_search_at ic r 0 None s = Some (st, e, pv', s', cs)"
      by (cases x) auto
    from re_search_at_sound[OF this] a show ?thesis by blast
  qed
qed


section \<open>The Synthesizer on a text without a head\<close>

text \<open>
  C10. \<open>build_replacement_stmt\<close> is total, and for every text in which the head
  pattern (\<open>SELECT\<close>, the optional \<open>SINGLE\<close>, the wildcard, \<open>FROM\<close> and a table
  name) matches nowhere, it returns the text unchanged.
\<close>

theorem build_replacement_stmt_without_head:
  assumes "\<not> (\<exists>pre h post. stmt = pre @ h @ post \<and> accepts True HEAD_RE (last_of None pre) h post)"
  shows "build_replacement_stmt stmt tbl flds tt tn = stmt"
proof -
  from assms have "re_search True HEAD_RE stmt = None"
    using re_search_None_iff [of True HEAD_RE stmt] by blast
  then show ?thesis
    by (simp add: build_replacement_stmt_def)
qed

lemma no_head_in_write: "re_search True HEAD_RE ''WRITE wa_spfli-carrid.'' = None"
  by code_simp

theorem build_replacement_stmt_without_head_witness:
  "\<not> (\<exists>pre h post. ''WRITE wa_spfli-carrid.'' = pre @ h @ post \<and>
        accepts True HEAD_RE (last_of None pre) h post) \<and>
   build_replacement_stmt ''WRITE wa_spfli-carrid.'' ''spfli'' [''carrid''] Wa ''wa_spfli'' =
     ''WRITE wa_spfli-carrid.''"
proof -
  have n: "\<not> (\<exists>pre h post. ''WRITE wa_spfli-carrid.'' = pre @ h @ post \<and>
        accepts True HEAD_RE (last_of None pre) h post)"
    using no_head_in_write re_search_None_iff [of True HEAD_RE "''WRITE wa_spfli-carrid.''"]
    by blast
  from build_replacement_stmt_without_head [OF n] n show ?thesis by blast
qed


section \<open>An empty list of replacements\<close>

lemma apply_span_replacements_Nil [simp]: "apply_span_replacements source [] = source"
  by (simp add: apply_span_replacements_def)

lemma replacements_Nil [simp]: "replacements flat_source aliases [] = []"
  by (simp add: replacements_def)

lemma find_selects_empty: "find_selects [] = []"
  by code_simp

lemma remediate_array_member:
  assumes "(u, out) \<in> set (remediate_array units)"
  shows "out = apply_span_replacements (code_or_empty u)
           (replacements (concat_units units) (build_aliases (concat_units units))
              (find_selects (code_or_empty u)))"
  using assms by (auto simp: remediate_array_def Let_def)


section \<open>When a suggestion is made\<close>

text \<open>
  The sets of aliases that \<open>build_aliases\<close> collects are finite, and so are the sets
  of names and of used fields.
\<close>

definition finite_aliases :: "(string \<rightharpoonup> string set) \<Rightarrow> bool" where
  "finite_aliases aliases = (\<forall>k A. aliases k = Some A \<longrightarrow> finite A)"

lemma finite_aliases_empty: "finite_aliases Map.empty"
  by (simp add: finite_aliases_def)

lemma finite_aliases_add:
  "finite_aliases m \<Longrightarrow> finite_aliases (add_alias ow al m)"
  by (auto simp: finite_aliases_def add_alias_def split: option.splits)

lemma finite_aliases_fold:
  "finite_aliases m \<Longrightarrow> finite_aliases (fold (\<lambda>x. add_alias (f x) (g x)) xs m)"
  by (induction xs arbitrary: m) (simp_all add: finite_aliases_add)

lemma finite_aliases_build: "finite_aliases (build_aliases source)"
  unfolding build_aliases_def Let_def
  by (intro finite_aliases_fold finite_aliases_empty)

lemma finite_target_names:
  "finite_aliases aliases \<Longrightarrow> finite (target_names tbl tt tn aliases)"
  by (auto simp: target_names_def finite_aliases_def split: ttype.splits option.splits)

lemma finite_fields_of_name: "finite (fields_of_name flat_source n)"
  by (simp add: fields_of_name_def)

lemma finite_used:
  "finite_aliases aliases \<Longrightarrow>
   finite (fst (collect_used_fields flat_source stmt tbl tt tn aliases))"
  by (simp add: collect_used_fields_def Let_def finite_target_names finite_fields_of_name)

lemma analyze_sel_fields:
  assumes "finite_aliases aliases"
  shows "used_fields (analyze_sel flat_source aliases s) =
           sorted_list_of_set (fst (collect_used_fields flat_source (sel_text s) (table s)
              (target_type s) (target_name s) aliases))"
    and "ambiguous (analyze_sel flat_source aliases s) =
           snd (collect_used_fields flat_source (sel_text s) (table s)
              (target_type s) (target_name s) aliases)"
    and "start_char_in_unit (analyze_sel flat_source aliases s) = fst (span s)"
    and "end_char_in_unit (analyze_sel flat_source aliases s) = snd (span s)"
    and "suggested_fields (analyze_sel flat_source aliases s) =
           (if used_fields (analyze_sel flat_source aliases s) \<noteq> [] \<and>
               \<not> ambiguous (analyze_sel flat_source aliases s)
            then Some (used_fields (analyze_sel flat_source aliases s)) else None)"
    and "suggested_statement (analyze_sel flat_source aliases s) =
           (if used_fields (analyze_sel flat_source aliases s) \<noteq> [] \<and>
               \<not> ambiguous (analyze_sel flat_source aliases s)
            then Some (build_replacement_stmt (sel_text s) (table s)
                         (used_fields (analyze_sel flat_source aliases s))
                         (target_type s) (target_name s))
            else None)"
  using finite_used[OF assms, of flat_source "sel_text s" "table s" "target_type s" "target_name s"]
  by (auto simp: analyze_sel_def Let_def split_def)

lemma replacements_analyze:
  assumes "finite_aliases aliases"
  shows "replacements flat_source aliases sels =
     concat (map (\<lambda>r. case suggested_statement r of
                         None \<Rightarrow> []
                       | Some t \<Rightarrow> [((start_char_in_unit r, end_char_in_unit r), t)])
               (map (analyze_sel flat_source aliases) sels))"
proof -
  have "(let (used, ambig) = collect_used_fields flat_source (sel_text s) (table s)
                             (target_type s) (target_name s) aliases
       in if used \<noteq> {} \<and> \<not> ambig
          then [(span s, build_replacement_stmt (sel_text s) (table s)
                           (sorted_list_of_set used) (target_type s) (target_name s))]
          else []) =
     (case suggested_statement (analyze_sel flat_source aliases s) of
                         None \<Rightarrow> []
                       | Some t \<Rightarrow> [((start_char_in_unit (analyze_sel flat_source aliases s),
                                      end_char_in_unit (analyze_sel flat_source aliases s)), t)])"
    for s
    using finite_used[OF assms, of flat_source "sel_text s" "table s" "target_type s" "target_name s"]
    by (auto simp: analyze_sel_def Let_def split_def)
  then show ?thesis
    by (simp add: replacements_def comp_def)
qed

lemma analyze_array_member:
  assumes "(u, rs) \<in> set (analyze_array units)"
  shows "rs = map (analyze_sel (concat_units units) (build_aliases (concat_units units)))
                (find_selects (code_or_empty u))"
  using assms by (auto simp: analyze_array_def Let_def)

text \<open>
  C3. For every unit of a batch and every finding of \<open>analyze_array\<close> for it, the
  suggested field list and the suggested statement are present exactly when the used
  field set is not empty and the finding is not ambiguous (and the suggested field list is
  then the sorted used field set); in every other case both are absent. The text that
  \<open>remediate_array\<close> returns for the unit is the unit's text with exactly the suggested
  statements of these findings put at their spans, so a finding without a suggestion gives
  no replacement.
\<close>

theorem suggestion_iff_evidence:
  assumes "(u, rs) \<in> set (analyze_array units)"
  shows "(\<forall>r\<in>set rs.
            (suggested_fields r \<noteq> None \<longleftrightarrow> used_fields r \<noteq> [] \<and> \<not> ambiguous r) \<and>
            (suggested_statement r \<noteq> None \<longleftrightarrow> used_fields r \<noteq> [] \<and> \<not> ambiguous r) \<and>
            (suggested_fields r = None \<or> suggested_fields r = Some (used_fields r))) \<and>
         (u, apply_span_replacements (code_or_empty u)
               (concat (map (\<lambda>r. case suggested_statement r of
                                    None \<Rightarrow> []
                                  | Some t \<Rightarrow> [((start_char_in_unit r, end_char_in_unit r), t)])
                          rs)))
           \<in> set (remediate_array units)"
proof -
  let ?F = "concat_units units"
  let ?A = "build_aliases ?F"
  have fin: "finite_aliases ?A" by (rule finite_aliases_build)
  note rs = analyze_array_member[OF assms]
  have u: "u \<in> set units"
    using assms by (auto simp: analyze_array_def Let_def)
  have 1: "\<forall>r\<in>set rs.
            (suggested_fields r \<noteq> None \<longleftrightarrow> used_fields r \<noteq> [] \<and> \<not> ambiguous r) \<and>
            (suggested_statement r \<noteq> None \<longleftrightarrow> used_fields r \<noteq> [] \<and> \<not> ambiguous r) \<and>
            (suggested_fields r = None \<or> suggested_fields r = Some (used_fields r))"
  proof
    fix r assume "r \<in> set rs"
    with rs obtain s where r: "r = analyze_sel ?F ?A s" by auto
    show "(suggested_fields r \<noteq> None \<longleftrightarrow> used_fields r \<noteq> [] \<and> \<not> ambiguous r) \<and>
            (suggested_statement r \<noteq> None \<longleftrightarrow> used_fields r \<noteq> [] \<and> \<not> ambiguous r) \<and>
            (suggested_fields r = None \<or> suggested_fields r = Some (used_fields r))"
      unfolding r using analyze_sel_fields(5,6)[OF fin, of ?F s] by simp
  qed
  have 2: "(u, apply_span_replacements (code_or_empty u)
               (replacements ?F ?A (find_selects (code_or_empty u)))) \<in> set (remediate_array units)"
    using u by (auto simp: remediate_array_def Let_def)
  show ?thesis
    using 1 2 unfolding replacements_analyze[OF fin] rs by blast
qed


lemma spfli_unit_analysis: "analyze_array [spfli_unit] = [(spfli_unit, [spfli_finding])]"
  using spfli_findings
  by (simp add: analyze_one_unit code_or_empty_def spfli_unit_def)

theorem suggestion_iff_evidence_witness:
  "(spfli_unit, [spfli_finding]) \<in> set (analyze_array [spfli_unit]) \<and>
   used_fields spfli_finding \<noteq> [] \<and> \<not> ambiguous spfli_finding \<and>
   suggested_fields spfli_finding = Some (used_fields spfli_finding) \<and>
   suggested_statement spfli_finding \<noteq> None \<and>
   (spfli_unit, apply_span_replacements spfli_text
      [((0, 34), ''SELECT carrid connid FROM spfli'' @ nl @
                 ''  INTO CORRESPONDING FIELDS OF wa_spfli.'')])
     \<in> set (remediate_array [spfli_unit])"
proof -
  have m: "(spfli_unit, [spfli_finding]) \<in> set (analyze_array [spfli_unit])"
    by (simp add: spfli_unit_analysis)
  have c: "code_or_empty spfli_unit = spfli_text"
    by (simp add: code_or_empty_def spfli_unit_def)
  from suggestion_iff_evidence [OF m] m c show ?thesis
    by (simp add: spfli_finding_def)
qed


section \<open>A statement without a receiving clause\<close>

definition mara_where_text :: string where
  "mara_where_text = ''SELECT * FROM mara WHERE matnr = 1. WRITE mara-matnr.''"

definition mara_where_unit :: Unit where
  "mara_where_unit = spfli_unit\<lparr>code := Some mara_where_text\<rparr>"

definition mara_where_finding :: sel_result where
  "mara_where_finding =
     \<lparr>table = ''mara'', target_type = Implicit, target_name = ''mara'',
      start_char_in_unit = 0, end_char_in_unit = 35,
      used_fields = [''matnr''], ambiguous = False,
      suggested_fields = Some [''matnr''],
      suggested_statement = Some ''SELECT matnr FROM maraWHERE matnr = 1.''\<rparr>"

lemma mara_where_findings:
  "map (analyze_sel (mara_where_text @ nl) (build_aliases (mara_where_text @ nl)))
     (find_selects mara_where_text) = [mara_where_finding]"
  by code_simp

text \<open>
  C5 (where the code departs from the claim). The statement
  \<open>SELECT * FROM mara WHERE matnr = 1.\<close> has no receiving clause: \<open>find_selects\<close>
  reports the implicit target \<open>mara\<close>, and no receiving clause is added. But the body
  is not preserved: \<open>build_replacement_stmt\<close> strips the white space around the body
  and puts it right after the head, so the suggested statement is
  \<open>SELECT matnr FROM maraWHERE matnr = 1.\<close>, with the table name run into
  \<open>WHERE\<close>.
\<close>

theorem implicit_rewrite_joins_table_and_body:
  "analyze_array [mara_where_unit] = [(mara_where_unit, [mara_where_finding])]"
  using mara_where_findings
  by (simp add: analyze_one_unit code_or_empty_def mara_where_unit_def)

section \<open>A component access in upper case\<close>

text \<open>
  \<open>collect_used_fields\<close> of \<open>app_V2.py\<close>: the names are the target and, for an
  internal table, its aliases; the ambiguity checks are two searches; the pattern of the
  component access is compiled with \<open>re.IGNORECASE\<close>.
\<close>

definition ASSIGN_COMPONENT_V2_RE :: "string \<Rightarrow> re" where
  "ASSIGN_COMPONENT_V2_RE n =
     seqs [Lit ''ASSIGN'', Plus True SpaceC, Lit ''COMPONENT'', Plus True SpaceC,
           Plus True WordC, Plus True SpaceC, Lit ''OF'', Plus True SpaceC,
           Lit ''STRUCTURE'', Plus True SpaceC, Lit n]"

definition ASSIGN_COMPONENT_FS_RE :: re where
  "ASSIGN_COMPONENT_FS_RE =
     seqs [Lit ''ASSIGN'', Plus True SpaceC, Lit ''COMPONENT'', Plus True SpaceC,
           Plus True WordC, Plus True SpaceC, Lit ''OF'', Plus True SpaceC,
           Lit ''STRUCTURE'', Plus True SpaceC, Lit ''<'', Plus True WordC, Lit ''>'']"

definition collect_used_fields_V2 ::
  "string \<Rightarrow> ttype \<Rightarrow> string \<Rightarrow> (string \<rightharpoonup> string set) \<Rightarrow> string set \<times> bool" where
  "collect_used_fields_V2 source tt tn aliases =
     (let names = (if tt = Implicit then {tn}
                   else {tn} \<union> (if tt = Itab
                                 then (case aliases tn of None \<Rightarrow> {} | Some A \<Rightarrow> A)
                                 else {}));
          ambig = ((tt \<noteq> Implicit \<and>
                      re_search True (ASSIGN_COMPONENT_V2_RE tn) source \<noteq> None) \<or>
                   (tt = Itab \<and> re_search True ASSIGN_COMPONENT_FS_RE source \<noteq> None));
          flds = (\<Union>n\<in>names.
                    (\<lambda>m. map lower (group_text source m ''field'')) `
                      set (finditer True (STRUCT_FIELD_RE n) source))
      in (flds, ambig))"

definition upper_access_text :: string where
  "upper_access_text = ''SELECT * FROM spfli INTO wa_spfli. WRITE WA_SPFLI-CARRID.''"

definition upper_access_unit :: Unit where
  "upper_access_unit = spfli_unit\<lparr>code := Some upper_access_text\<rparr>"

definition upper_access_finding :: sel_result where
  "upper_access_finding =
     \<lparr>table = ''spfli'', target_type = Wa, target_name = ''wa_spfli'',
      start_char_in_unit = 0, end_char_in_unit = 34,
      used_fields = [], ambiguous = False,
      suggested_fields = None, suggested_statement = None\<rparr>"

lemma upper_access_findings:
  "map (analyze_sel (upper_access_text @ nl) (build_aliases (upper_access_text @ nl)))
     (find_selects upper_access_text) = [upper_access_finding]"
  by code_simp

lemma upper_access_V2:
  "collect_used_fields_V2 (upper_access_text @ nl) Wa ''wa_spfli''
     (build_aliases (upper_access_text @ nl)) = ({''carrid''}, False)"
  by code_simp

text \<open>
  C4 (where the code departs from the claim). For the candidate \<open>wa_spfli\<close> the
  access \<open>WA_SPFLI-CARRID\<close> is not matched by \<open>collect_used_fields\<close> of
  \<open>app.py\<close>, whose pattern is compiled without \<open>re.IGNORECASE\<close>: no field is
  collected and no suggestion is made. \<open>collect_used_fields\<close> of \<open>app_V2.py\<close>
  collects \<open>carrid\<close> from the same text.
\<close>

theorem upper_case_access_not_collected:
  "analyze_array [upper_access_unit] = [(upper_access_unit, [upper_access_finding])] \<and>
   collect_used_fields_V2 (concat_units [upper_access_unit]) Wa ''wa_spfli''
     (build_aliases (concat_units [upper_access_unit])) = ({''carrid''}, False)"
  using upper_access_findings upper_access_V2
  by (simp add: analyze_one_unit concat_units_def code_or_empty_def upper_access_unit_def)


section \<open>The field list and the rewritten head\<close>

lemma is_upper_nat: "is_upper c \<longleftrightarrow> 65 \<le> (of_char c :: nat) \<and> (of_char c :: nat) \<le> 90"
  by (simp add: is_upper_def less_eq_char_def)

lemma is_lower_nat: "is_lower c \<longleftrightarrow> 97 \<le> (of_char c :: nat) \<and> (of_char c :: nat) \<le> 122"
  by (simp add: is_lower_def less_eq_char_def)

lemma lower_of_upper: "is_upper c \<Longrightarrow> is_lower (lower c)"
  by (simp add: lower_def is_upper_nat is_lower_nat)

lemma not_upper_lower: "\<not> is_upper (lower c)"
  by (auto simp: lower_def is_upper_nat)

lemma lower_eq_no_letter:
  assumes "lower x = c" and "\<not> is_lower c"
  shows "x = c"
  using assms lower_of_upper[of x] by (auto simp: lower_def split: if_splits)

lemma ceq_no_letter:
  assumes "ceq True a x" and "\<not> is_lower (lower a)"
  shows "x = lower a"
  using assms lower_eq_no_letter[of x "lower a"] by (simp add: ceq_def)


text \<open>Patterns without \<open>\b\<close> and lookaround match a text whatever stands around it.\<close>

fun ctx_free :: "re \<Rightarrow> bool" where
  "ctx_free (Lit l) = True"
| "ctx_free (Cls c) = True"
| "ctx_free (Star g c) = True"
| "ctx_free (Seq a b) = (ctx_free a \<and> ctx_free b)"
| "ctx_free (Alt a b) = (ctx_free a \<and> ctx_free b)"
| "ctx_free Eps = True"
| "ctx_free (Grp n r) = ctx_free r"
| "ctx_free WordB = False"
| "ctx_free (NotAhead r) = False"
| "ctx_free (NotBehind c) = False"

lemma ctx_free_accepts_all:
  "ctx_free r \<Longrightarrow> \<forall>pv u v qv w. accepts ic r pv u v \<longrightarrow> accepts ic r qv u w"
proof (induction r)
  case (Seq a b)
  from Seq.prems have c: "ctx_free a" "ctx_free b" by auto
  note a = Seq.IH(1)[OF c(1), rule_format] and b = Seq.IH(2)[OF c(2), rule_format]
  show ?case
  proof (intro allI impI)
    fix pv u v qv w
    assume "accepts ic (Seq a b) pv u v"
    then obtain u1 u2 where u:
      "u = u1 @ u2" "accepts ic a pv u1 (u2 @ v)" "accepts ic b (last_of pv u1) u2 v" by auto
    have "accepts ic a qv u1 (u2 @ w)" by (rule a[OF u(2)])
    moreover have "accepts ic b (last_of qv u1) u2 w" by (rule b[OF u(3)])
    ultimately show "accepts ic (Seq a b) qv u w" using u(1) by auto
  qed
next
  case (Alt a b)
  from Alt.prems have c: "ctx_free a" "ctx_free b" by auto
  note a = Alt.IH(1)[OF c(1), rule_format] and b = Alt.IH(2)[OF c(2), rule_format]
  show ?case using a b by (simp del: all_simps ex_simps)
qed auto

lemma ctx_free_accepts:
  "ctx_free r \<Longrightarrow> accepts ic r pv u v \<Longrightarrow> accepts ic r qv u w"
  using ctx_free_accepts_all by blast

lemma accepts_seqs_ConsD:
  assumes "accepts ic (seqs (a # b # rs)) pv u v"
  obtains u1 u2 where "u = u1 @ u2" "accepts ic a pv u1 (u2 @ v)"
    "accepts ic (seqs (b # rs)) (last_of pv u1) u2 v"
  using assms by auto

lemma accepts_PlusD:
  assumes "accepts ic (Plus g c) pv w v"
  shows "w \<noteq> [] \<and> list_all (in_class c) w"
  using assms by (auto simp: Plus_def)

lemma lit_avoids:
  assumes "list_all2 (ceq True) l k" and "x \<in> set k" and "\<not> is_lower x" and "\<not> is_upper x"
  shows "x \<in> set l"
  using assms
proof (induction l arbitrary: k)
  case Nil
  then show ?case by simp
next
  case (Cons a l)
  then obtain y ys where k: "k = y # ys" "ceq True a y" "list_all2 (ceq True) l ys"
    by (auto simp: list_all2_Cons1)
  show ?case
  proof (cases "x = y")
    case True
    with k(2) have "lower a = lower x" by (simp add: ceq_def)
    also have "\<dots> = x" using Cons.prems(4) by (simp add: lower_def)
    finally have "lower a = x" .
    with Cons.prems(3) lower_of_upper[of a] have "\<not> is_upper a" by auto
    with \<open>lower a = x\<close> have "a = x" by (simp add: lower_def)
    then show ?thesis by simp
  next
    case False
    with Cons.prems k have "x \<in> set ys" by simp
    from Cons.IH[OF k(3) this Cons.prems(3,4)] show ?thesis by simp
  qed
qed

lemma star_facts:
  "\<not> is_lower CHR ''*''" "\<not> is_upper CHR ''*''" "\<not> is_space CHR ''*''"
  "CHR ''*'' \<notin> set ''SELECT''" "CHR ''*'' \<notin> set ''SINGLE''"
  by code_simp+

lemma head_shape:
  assumes "accepts True HEAD_RE pv h body"
  shows "\<exists>kw hrest. h = kw @ ''*'' @ hrest \<and> CHR ''*'' \<notin> set kw"
proof -
  let ?opt = "Opt (seqs [Lit ''SINGLE'', Plus True SpaceC])"
  let ?t = "[Plus True SpaceC, Lit ''FROM'', Plus True SpaceC, Plus True WordC]"
  from assms have "accepts True (seqs (Lit ''SELECT'' # Plus True SpaceC # ?opt # Lit ''*'' # ?t))
      pv h body" by (simp only: HEAD_RE_def)
  then obtain u1 r1 where 1: "h = u1 @ r1" "accepts True (Lit ''SELECT'') pv u1 (r1 @ body)"
    "accepts True (seqs (Plus True SpaceC # ?opt # Lit ''*'' # ?t)) (last_of pv u1) r1 body"
    by (rule accepts_seqs_ConsD)
  from 1(3) obtain u2 r2 where 2: "r1 = u2 @ r2"
    "accepts True (Plus True SpaceC) (last_of pv u1) u2 (r2 @ body)"
    "accepts True (seqs (?opt # Lit ''*'' # ?t)) (last_of (last_of pv u1) u2) r2 body"
    by (rule accepts_seqs_ConsD)
  from 2(3) obtain u3 r3 where 3: "r2 = u3 @ r3"
    "accepts True ?opt (last_of (last_of pv u1) u2) u3 (r3 @ body)"
    "accepts True (seqs (Lit ''*'' # ?t)) (last_of (last_of (last_of pv u1) u2) u3) r3 body"
    by (rule accepts_seqs_ConsD)
  from 3(3) obtain u4 r4 where 4: "r3 = u4 @ r4"
    "accepts True (Lit ''*'') (last_of (last_of (last_of pv u1) u2) u3) u4 (r4 @ body)"
    by (rule accepts_seqs_ConsD)
  have u4: "u4 = ''*''"
  proof -
    from 4(2) obtain x where x: "u4 = [x]" "ceq True CHR ''*'' x"
      by (auto simp: list_all2_Cons1)
    have "lower CHR ''*'' = CHR ''*''" by (simp add: lower_def star_facts)
    with ceq_no_letter[OF x(2)] star_facts(1) have "x = CHR ''*''" by simp
    with x show ?thesis by simp
  qed
  have n1: "CHR ''*'' \<notin> set u1"
    using 1(2) lit_avoids[of "''SELECT''" u1 "CHR ''*''"] star_facts by auto
  have n2: "CHR ''*'' \<notin> set u2"
    using accepts_PlusD[OF 2(2)] star_facts(3) by (auto simp: list_all_iff)
  have n3: "CHR ''*'' \<notin> set u3"
  proof (cases "u3 = []")
    case True
    then show ?thesis by simp
  next
    case False
    with 3(2) have "accepts True (seqs [Lit ''SINGLE'', Plus True SpaceC])
        (last_of (last_of pv u1) u2) u3 (r3 @ body)" by (simp add: Opt_def)
    then obtain a b where ab: "u3 = a @ b"
      "accepts True (Lit ''SINGLE'') (last_of (last_of pv u1) u2) a (b @ r3 @ body)"
      "accepts True (seqs [Plus True SpaceC]) (last_of (last_of (last_of pv u1) u2) a) b (r3 @ body)"
      by (rule accepts_seqs_ConsD)
    from ab(3) have "accepts True (Plus True SpaceC) (last_of (last_of (last_of pv u1) u2) a) b
        (r3 @ body)" by simp
    from accepts_PlusD[OF this] star_facts(3) have "CHR ''*'' \<notin> set b"
      by (auto simp: list_all_iff)
    moreover have "CHR ''*'' \<notin> set a"
      using ab(2) lit_avoids[of "''SINGLE''" a "CHR ''*''"] star_facts by auto
    ultimately show ?thesis using ab(1) by simp
  qed
  show ?thesis
    using 1(1) 2(1) 3(1) 4(1) u4 n1 n2 n3
    by (intro exI[of _ "u1 @ u2 @ u3"] exI[of _ r4]) simp
qed


lemma seqs_appendD:
  assumes "accepts ic (seqs (xs @ ys)) pv u v" and "ys \<noteq> []"
  shows "\<exists>u1 u2. u = u1 @ u2 \<and> accepts ic (seqs xs) pv u1 (u2 @ v) \<and>
           accepts ic (seqs ys) (last_of pv u1) u2 v"
  using assms
proof (induction xs arbitrary: pv u rule: seqs.induct)
  case 1
  then show ?case by (intro exI[of _ "[]"] exI[of _ u]) simp
next
  case (2 r)
  from 2(2) obtain y ys' where ys: "ys = y # ys'" by (cases ys) auto
  with 2(1) obtain u1 u2 where "u = u1 @ u2" "accepts ic r pv u1 (u2 @ v)"
    "accepts ic (seqs (y # ys')) (last_of pv u1) u2 v" by auto
  with ys show ?case by (intro exI[of _ u1] exI[of _ u2]) simp
next
  case (3 r x xs)
  from 3(2) obtain a b where ab: "u = a @ b" "accepts ic r pv a (b @ v)"
    "accepts ic (seqs ((x # xs) @ ys)) (last_of pv a) b v"
    by (cases "xs @ ys") auto
  from 3(1)[OF ab(3) 3(3)] obtain c d where cd: "b = c @ d"
    "accepts ic (seqs (x # xs)) (last_of pv a) c (d @ v)"
    "accepts ic (seqs ys) (last_of (last_of pv a) c) d v" by blast
  have "accepts ic (seqs (r # x # xs)) pv (a @ c) (d @ v)"
    using ab(2) cd(1,2) by auto
  with ab(1) cd(1,3) show ?case
    by (intro exI[of _ "a @ c"] exI[of _ d]) simp
qed

lemma seqs_appendI:
  assumes "accepts ic (seqs xs) pv u1 (u2 @ v)"
    and "accepts ic (seqs ys) (last_of pv u1) u2 v" and "ys \<noteq> []"
  shows "accepts ic (seqs (xs @ ys)) pv (u1 @ u2) v"
  using assms
proof (induction xs arbitrary: pv u1 rule: seqs.induct)
  case 1
  then show ?case by simp
next
  case (2 r)
  from 2(3) obtain y ys' where ys: "ys = y # ys'" by (cases ys) auto
  with 2(1,2) show ?case by auto
next
  case (3 r x xs)
  from 3(2) obtain a c where ac: "u1 = a @ c" "accepts ic r pv a (c @ u2 @ v)"
    "accepts ic (seqs (x # xs)) (last_of pv a) c (u2 @ v)" by auto
  from 3(3) ac(1) have "accepts ic (seqs ys) (last_of (last_of pv a) c) u2 v" by simp
  from 3(1)[OF ac(3) this 3(4)]
  have "accepts ic (seqs (x # (xs @ ys))) (last_of pv a) (c @ u2) v" by simp
  with ac(2) have "accepts ic (seqs (r # x # (xs @ ys))) pv (a @ (c @ u2)) v"
    by (intro accepts_seqsI) simp_all
  with ac(1) show ?case by (simp only: append.simps append_assoc)
qed

lemma select_has_head:
  assumes "accepts True SELECT_STAR_INNER pv u post"
  shows "\<exists>h b. u = h @ b \<and> accepts True HEAD_RE None h b"
proof -
  let ?P = "[Lit ''SELECT'', Plus True SpaceC, Opt (seqs [Lit ''SINGLE'', Plus True SpaceC]),
             Lit ''*'', Plus True SpaceC, Lit ''FROM'', Plus True SpaceC]"
  let ?T = "[Grp ''table'' (Plus True WordC), Grp ''body'' (Star False Dot), Lit ''.'']"
  have "accepts True (seqs (?P @ ?T)) pv u post"
    using assms unfolding SELECT_STAR_INNER_def by (simp only: append.simps)
  from seqs_appendD[OF this] obtain a b where ab: "u = a @ b"
    "accepts True (seqs ?P) pv a (b @ post)" "accepts True (seqs ?T) (last_of pv a) b post"
    by blast
  from ab(3) obtain t b' where t: "b = t @ b'"
    "accepts True (Grp ''table'' (Plus True WordC)) (last_of pv a) t (b' @ post)"
    by (rule accepts_seqs_ConsD)
  from t(2) have "accepts True (seqs [Plus True WordC]) (last_of pv a) t (b' @ post)" by simp
  moreover from ab(2) t(1) have "accepts True (seqs ?P) pv a (t @ b' @ post)" by simp
  ultimately have "accepts True (seqs (?P @ [Plus True WordC])) pv (a @ t) (b' @ post)"
    by (intro seqs_appendI) simp_all
  then have hd: "accepts True HEAD_RE pv (a @ t) (b' @ post)"
    unfolding HEAD_RE_def by (simp only: append.simps)
  have "ctx_free HEAD_RE" by (simp add: HEAD_RE_def Plus_def Opt_def)
  from ctx_free_accepts[OF this hd] have "accepts True HEAD_RE None (a @ t) b'" .
  with ab(1) t(1) show ?thesis by (intro exI[of _ "a @ t"] exI[of _ b']) simp
qed

lemma re_search_at_first:
  "re_m ic r accept p pv s [] = Some m \<Longrightarrow> re_search_at ic r p pv s = Some (p, m)"
  by (cases s) simp_all

lemma re_search_prefix:
  assumes "accepts ic r None h0 b0"
  shows "\<exists>e cs h b. re_search ic r (h0 @ b0) = Some (0, e, cs) \<and> h0 @ b0 = h @ b \<and>
           e = length h \<and> accepts ic r None h b"
proof -
  from re_m_accept_complete[OF assms, of 0 "[]"]
  obtain e pv' s' cs where m: "re_m ic r accept 0 None (h0 @ b0) [] = Some (e, pv', s', cs)"
    by (cases "re_m ic r accept 0 None (h0 @ b0) []") auto
  from re_m_accept_sound[OF m] obtain h where
    h: "h0 @ b0 = h @ s'" "accepts ic r None h s'" "e = 0 + length h" by blast
  from re_search_at_first[OF m] have "re_search ic r (h0 @ b0) = Some (0, e, cs)"
    by (simp add: re_search_def)
  with h show ?thesis by auto
qed

lemma re_search_at_char:
  "c \<notin> set kw \<Longrightarrow>
   re_search_at False (Lit [c]) p pv (kw @ c # rest) =
     Some (p + length kw, p + length kw + 1, Some c, rest, [])"
  by (induction kw arbitrary: p pv) (auto simp: ceq_def accept_def)

lemma re_sub1_char:
  assumes "c \<notin> set kw"
  shows "re_sub1 False (Lit [c]) e (kw @ [c] @ rest) = kw @ e @ rest"
  using re_search_at_char[OF assms, of 0 None rest]
  by (simp add: re_sub1_def re_search_def)

lemma build_replacement_stmt_shape:
  assumes "accepts True SELECT_STAR_RE pv u post" and "fs \<noteq> []" and "sorted fs"
  shows "\<exists>kw hrest body tail. u = kw @ ''*'' @ hrest @ body \<and> CHR ''*'' \<notin> set kw \<and>
           accepts True HEAD_RE None (kw @ ''*'' @ hrest) body \<and>
           build_replacement_stmt u tbl fs tt tn = kw @ join '' '' fs @ hrest @ tail"
proof -
  from assms(1) have "accepts True SELECT_STAR_INNER pv u post"
    by (simp add: SELECT_STAR_RE_def)
  from select_has_head[OF this] obtain h0 b0 where "u = h0 @ b0" "accepts True HEAD_RE None h0 b0"
    by blast
  with re_search_prefix[of True HEAD_RE h0 b0] obtain e cs h b where
    s: "re_search True HEAD_RE u = Some (0, e, cs)" "u = h @ b" "e = length h"
       "accepts True HEAD_RE None h b" by auto
  from head_shape[OF s(4)] obtain kw hrest where
    k: "h = kw @ ''*'' @ hrest" "CHR ''*'' \<notin> set kw" by blast
  have sl: "slice u 0 e = h" using s(2,3) by (simp add: slice_def)
  have sub: "re_sub1 False (Lit ''*'') (join '' '' fs) h = kw @ join '' '' fs @ hrest"
    using re_sub1_char[OF k(2), of "join '' '' fs" hrest] k(1) by simp
  have srt: "sort fs = fs" using assms(3) by (rule sorted_sort_id)
  have "\<exists>tail. build_replacement_stmt u tbl fs tt tn = (kw @ join '' '' fs @ hrest) @ tail"
    using s(1) assms(2)
    by (cases tt) (simp_all add: build_replacement_stmt_def Let_def sl sub srt)
  then obtain tail where "build_replacement_stmt u tbl fs tt tn = kw @ join '' '' fs @ hrest @ tail"
    by auto
  with s(2,4) k show ?thesis
    by (intro exI[of _ kw] exI[of _ hrest] exI[of _ b] exI[of _ tail]) simp
qed


lemma used_fields_lower:
  assumes "f \<in> fst (collect_used_fields flat_source stmt tbl tt tn aliases)" and "c \<in> set f"
  shows "\<not> is_upper c"
  using assms not_upper_lower
  by (auto simp: collect_used_fields_def Let_def fields_of_name_def)

text \<open>
  C7. Every suggested field list of \<open>analyze_array\<close> is sorted in ascending
  lexicographic order, has no duplicates and no upper-case letter; and the suggested
  statement is the head of the original statement with its wildcard (the first \<open>*\<close>
  of the statement, between the keywords and \<open>FROM\<close>) replaced by exactly these names
  joined by single blanks, in that order, followed by the rest of the rewrite.
\<close>

theorem suggested_fields_sorted:
  assumes "(u, rs) \<in> set (analyze_array units)" and "r \<in> set rs"
    and "suggested_fields r = Some fs"
  shows "sorted fs \<and> distinct fs \<and> (\<forall>f\<in>set fs. \<forall>c\<in>set f. \<not> is_upper c) \<and>
    (\<exists>kw hrest body tail.
        slice (code_or_empty u) (start_char_in_unit r) (end_char_in_unit r) =
          kw @ ''*'' @ hrest @ body \<and>
        CHR ''*'' \<notin> set kw \<and> accepts True HEAD_RE None (kw @ ''*'' @ hrest) body \<and>
        suggested_statement r = Some (kw @ join '' '' fs @ hrest @ tail))"
proof -
  let ?F = "concat_units units"
  let ?A = "build_aliases ?F"
  have fin: "finite_aliases ?A" by (rule finite_aliases_build)
  from analyze_array_member[OF assms(1)] assms(2) obtain s where
    s: "s \<in> set (find_selects (code_or_empty u))" and r: "r = analyze_sel ?F ?A s" by auto
  let ?used = "fst (collect_used_fields ?F (sel_text s) (table s) (target_type s) (target_name s) ?A)"
  have finu: "finite ?used" by (rule finite_used[OF fin])
  note af = analyze_sel_fields[OF fin, of ?F s]
  from assms(3) have fs: "fs = used_fields r" "fs \<noteq> []"
    and st: "suggested_statement r =
               Some (build_replacement_stmt (sel_text s) (table s) fs
                       (target_type s) (target_name s))"
    unfolding r using af(5,6) by (auto split: if_splits)
  have fl: "fs = sorted_list_of_set ?used" using fs(1) af(1) by (simp add: r)
  have 1: "sorted fs" "distinct fs" using fl by simp_all
  have 2: "\<forall>f\<in>set fs. \<forall>c\<in>set f. \<not> is_upper c"
    using fl finu used_fields_lower by auto
  from find_selects_located[OF s] obtain pre x post where
    l: "code_or_empty u = pre @ x @ post" "span s = (length pre, length pre + length x)"
       "sel_text s = x" "accepts True SELECT_STAR_RE (last_of None pre) x post" by blast
  have sl: "slice (code_or_empty u) (start_char_in_unit r) (end_char_in_unit r) = x"
    using l(1,2) af(3,4) by (simp add: r)
  from build_replacement_stmt_shape[OF l(4) fs(2) 1(1), of "table s" "target_type s" "target_name s"]
  obtain kw hrest body tail where
    "x = kw @ ''*'' @ hrest @ body" "CHR ''*'' \<notin> set kw"
    "accepts True HEAD_RE None (kw @ ''*'' @ hrest) body"
    "build_replacement_stmt x (table s) fs (target_type s) (target_name s) =
       kw @ join '' '' fs @ hrest @ tail" by blast
  with st sl l(3) have "\<exists>kw hrest body tail.
        slice (code_or_empty u) (start_char_in_unit r) (end_char_in_unit r) =
          kw @ ''*'' @ hrest @ body \<and>
        CHR ''*'' \<notin> set kw \<and> accepts True HEAD_RE None (kw @ ''*'' @ hrest) body \<and>
        suggested_statement r = Some (kw @ join '' '' fs @ hrest @ tail)"
    by (intro exI[of _ kw] exI[of _ hrest] exI[of _ body] exI[of _ tail]) simp
  with 1 2 show ?thesis by blast
qed

theorem suggested_fields_sorted_witness:
  "(spfli_unit, [spfli_finding]) \<in> set (analyze_array [spfli_unit]) \<and>
   suggested_fields spfli_finding = Some [''carrid'', ''connid''] \<and>
   sorted [''carrid'', ''connid''] \<and> distinct [''carrid'', ''connid''] \<and>
   (\<exists>kw hrest body tail.
        slice spfli_text 0 34 = kw @ ''*'' @ hrest @ body \<and>
        CHR ''*'' \<notin> set kw \<and> accepts True HEAD_RE None (kw @ ''*'' @ hrest) body \<and>
        suggested_statement spfli_finding =
          Some (kw @ join '' '' [''carrid'', ''connid''] @ hrest @ tail))"
proof -
  have m: "(spfli_unit, [spfli_finding]) \<in> set (analyze_array [spfli_unit])"
    by (simp add: spfli_unit_analysis)
  have f: "suggested_fields spfli_finding = Some [''carrid'', ''connid'']"
    by (simp add: spfli_finding_def)
  have c: "code_or_empty spfli_unit = spfli_text"
    by (simp add: code_or_empty_def spfli_unit_def)
  have p: "start_char_in_unit spfli_finding = 0" "end_char_in_unit spfli_finding = 34"
    by (simp_all add: spfli_finding_def)
  from suggested_fields_sorted [OF m _ f] m f show ?thesis
    unfolding c p by simp
qed


section \<open>The groups of a match\<close>

text \<open>
  What a named group of a match holds. \<open>grps r\<close> lists the groups of the pattern
  \<open>r\<close> with their own patterns, and \<open>binds r n\<close> says that the group \<open>n\<close>
  lies on every path through \<open>r\<close>. A match binds every such group, and the text of
  a group is a text that the pattern of the group matches.
\<close>

fun grps :: "re \<Rightarrow> (string \<times> re) list" where
  "grps (Grp n r) = (n, r) # grps r"
| "grps (Seq a b) = grps a @ grps b"
| "grps (Alt a b) = grps a @ grps b"
| "grps r = []"

fun binds :: "re \<Rightarrow> string \<Rightarrow> bool" where
  "binds (Grp m r) n = (m = n \<or> binds r n)"
| "binds (Seq a b) n = (binds a n \<or> binds b n)"
| "binds (Alt a b) n = (binds a n \<and> binds b n)"
| "binds r n = False"

definition caps_ok :: "bool \<Rightarrow> re \<Rightarrow> nat \<Rightarrow> string \<Rightarrow> caps \<Rightarrow> bool" where
  "caps_ok ic r p u new =
     ((\<forall>n. binds r n \<longrightarrow> n \<in> fst ` set new) \<and>
      (\<forall>n a b. (n, a, b) \<in> set new \<longrightarrow>
         p \<le> a \<and> a \<le> b \<and> b \<le> p + length u \<and>
         (\<exists>r' qv w. (n, r') \<in> set (grps r) \<and> accepts ic r' qv (slice u (a - p) (b - p)) w)))"

lemma slice_append1: "b \<le> length u1 \<Longrightarrow> slice (u1 @ u2) a b = slice u1 a b"
  by (simp add: slice_def)

lemma slice_append2:
  "length u1 \<le> a \<Longrightarrow> slice (u1 @ u2) a b = slice u2 (a - length u1) (b - length u1)"
  by (simp add: slice_def)

lemma caps_ok_Nil: "(\<And>n. \<not> binds r n) \<Longrightarrow> caps_ok ic r p u []"
  by (simp add: caps_ok_def)

lemma caps_ok_Seq:
  assumes "caps_ok ic a p u1 new1" and "caps_ok ic b (p + length u1) u2 new2"
  shows "caps_ok ic (Seq a b) p (u1 @ u2) (new2 @ new1)"
proof -
  have 1: "\<forall>n. binds (Seq a b) n \<longrightarrow> n \<in> fst ` set (new2 @ new1)"
    using assms by (auto simp: caps_ok_def)
  have 2: "\<forall>n x y. (n, x, y) \<in> set (new2 @ new1) \<longrightarrow>
        p \<le> x \<and> x \<le> y \<and> y \<le> p + length (u1 @ u2) \<and>
        (\<exists>r' qv w. (n, r') \<in> set (grps (Seq a b)) \<and>
           accepts ic r' qv (slice (u1 @ u2) (x - p) (y - p)) w)"
  proof (intro allI impI)
    fix n x y assume m: "(n, x, y) \<in> set (new2 @ new1)"
    show "p \<le> x \<and> x \<le> y \<and> y \<le> p + length (u1 @ u2) \<and>
          (\<exists>r' qv w. (n, r') \<in> set (grps (Seq a b)) \<and>
             accepts ic r' qv (slice (u1 @ u2) (x - p) (y - p)) w)"
    proof (cases "(n, x, y) \<in> set new1")
      case True
      with assms(1) obtain r' qv w where 1: "p \<le> x" "x \<le> y" "y \<le> p + length u1"
        "(n, r') \<in> set (grps a)" "accepts ic r' qv (slice u1 (x - p) (y - p)) w"
        unfolding caps_ok_def by blast
      from 1(3) have "slice (u1 @ u2) (x - p) (y - p) = slice u1 (x - p) (y - p)"
        by (intro slice_append1) simp
      with 1 show ?thesis by auto
    next
      case False
      with m have "(n, x, y) \<in> set new2" by simp
      with assms(2) obtain r' qv w where 1: "p + length u1 \<le> x" "x \<le> y"
        "y \<le> p + length u1 + length u2"
        "(n, r') \<in> set (grps b)"
        "accepts ic r' qv (slice u2 (x - (p + length u1)) (y - (p + length u1))) w"
        unfolding caps_ok_def by blast
      from 1(1) have "slice (u1 @ u2) (x - p) (y - p) =
          slice u2 (x - p - length u1) (y - p - length u1)"
        by (intro slice_append2) simp
      also have "\<dots> = slice u2 (x - (p + length u1)) (y - (p + length u1))" by simp
      finally show ?thesis using 1 by auto
    qed
  qed
  show ?thesis unfolding caps_ok_def by (intro conjI 1 2)
qed

lemma caps_ok_AltL: "caps_ok ic a p u new \<Longrightarrow> caps_ok ic (Alt a b) p u new"
  unfolding caps_ok_def by (simp, blast)

lemma caps_ok_AltR: "caps_ok ic b p u new \<Longrightarrow> caps_ok ic (Alt a b) p u new"
  unfolding caps_ok_def by (simp, blast)

lemma caps_ok_Grp:
  assumes "caps_ok ic r p u new" and "accepts ic r pv u v"
  shows "caps_ok ic (Grp n r) p u ((n, p, p + length u) # new)"
proof -
  have 1: "\<forall>m. binds (Grp n r) m \<longrightarrow> m \<in> fst ` set ((n, p, p + length u) # new)"
    using assms(1) by (auto simp: caps_ok_def)
  have 2: "\<forall>m x y. (m, x, y) \<in> set ((n, p, p + length u) # new) \<longrightarrow>
        p \<le> x \<and> x \<le> y \<and> y \<le> p + length u \<and>
        (\<exists>r' qv w. (m, r') \<in> set (grps (Grp n r)) \<and>
           accepts ic r' qv (slice u (x - p) (y - p)) w)"
  proof (intro allI impI)
    fix m x y assume m: "(m, x, y) \<in> set ((n, p, p + length u) # new)"
    show "p \<le> x \<and> x \<le> y \<and> y \<le> p + length u \<and>
          (\<exists>r' qv w. (m, r') \<in> set (grps (Grp n r)) \<and>
             accepts ic r' qv (slice u (x - p) (y - p)) w)"
    proof (cases "(m, x, y) = (n, p, p + length u)")
      case True
      then have "slice u (x - p) (y - p) = u" by (simp add: slice_def)
      with True assms(2) show ?thesis by auto
    next
      case False
      with m have "(m, x, y) \<in> set new" by auto
      with assms(1) show ?thesis unfolding caps_ok_def by (simp, blast)
    qed
  qed
  show ?thesis unfolding caps_ok_def by (intro conjI 1 2)
qed

text \<open>
  A successful run of the matcher on \<open>r\<close> consumes a text that \<open>r\<close> matches and
  calls its continuation with the groups of \<open>r\<close> put before the groups it was given.
\<close>

lemma re_m_caps:
  "re_m ic r k p pv s cs = Some res \<Longrightarrow>
   \<exists>u v new. s = u @ v \<and> accepts ic r pv u v \<and>
     k (p + length u) (last_of pv u) v (new @ cs) = Some res \<and> caps_ok ic r p u new"
proof (induction r arbitrary: k p pv s cs res)
  case (Lit l)
  then have "lit ic l k p pv s cs = Some res" by simp
  from lit_sound[OF this] obtain u v where
    "s = u @ v" "list_all2 (ceq ic) l u" "k (p + length u) (last_of pv u) v cs = Some res"
    by blast
  then show ?case
    by (intro exI[of _ u] exI[of _ v] exI[of _ "[]"]) (simp add: caps_ok_Nil)
next
  case (Cls c)
  then obtain x xs where "s = x # xs" "in_class c x" "k (p + 1) (Some x) xs cs = Some res"
    by (auto split: list.splits if_splits)
  then show ?case
    by (intro exI[of _ "[x]"] exI[of _ xs] exI[of _ "[]"]) (simp add: caps_ok_Nil)
next
  case (Star g c)
  have "\<exists>u v. s = u @ v \<and> list_all (in_class c) u \<and>
          k (p + length u) (last_of pv u) v cs = Some res"
  proof (cases g)
    case True
    with Star have "star_greedy c k p pv s cs = Some res" by simp
    then show ?thesis by (rule star_greedy_sound)
  next
    case False
    with Star have "star_lazy c k p pv s cs = Some res" by simp
    then show ?thesis by (rule star_lazy_sound)
  qed
  then obtain u v where
    "s = u @ v" "list_all (in_class c) u" "k (p + length u) (last_of pv u) v cs = Some res"
    by blast
  then show ?case
    by (intro exI[of _ u] exI[of _ v] exI[of _ "[]"]) (simp add: caps_ok_Nil)
next
  case (Seq a b)
  from Seq.prems have "re_m ic a (re_m ic b k) p pv s cs = Some res" by simp
  from Seq.IH(1)[OF this] obtain u1 v1 new1 where 1:
    "s = u1 @ v1" "accepts ic a pv u1 v1"
    "re_m ic b k (p + length u1) (last_of pv u1) v1 (new1 @ cs) = Some res"
    "caps_ok ic a p u1 new1" by blast
  from Seq.IH(2)[OF 1(3)] obtain u2 v new2 where 2:
    "v1 = u2 @ v" "accepts ic b (last_of pv u1) u2 v"
    "k (p + length u1 + length u2) (last_of (last_of pv u1) u2) v (new2 @ new1 @ cs) = Some res"
    "caps_ok ic b (p + length u1) u2 new2" by blast
  have "accepts ic (Seq a b) pv (u1 @ u2) v" using 1(2) 2(1,2) by auto
  moreover have "caps_ok ic (Seq a b) p (u1 @ u2) (new2 @ new1)"
    using 1(4) 2(4) by (rule caps_ok_Seq)
  ultimately show ?case using 1(1) 2(1,3)
    by (intro exI[of _ "u1 @ u2"] exI[of _ v] exI[of _ "new2 @ new1"]) (simp add: add.assoc)
next
  case (Alt a b)
  show ?case
  proof (cases "re_m ic a k p pv s cs")
    case None
    with Alt.prems have "re_m ic b k p pv s cs = Some res" by simp
    from Alt.IH(2)[OF this] obtain u v new where
      "s = u @ v" "accepts ic b pv u v" "k (p + length u) (last_of pv u) v (new @ cs) = Some res"
      "caps_ok ic b p u new" by blast
    then show ?thesis
      by (intro exI[of _ u] exI[of _ v] exI[of _ new]) (simp add: caps_ok_AltR)
  next
    case (Some x)
    with Alt.prems have "re_m ic a k p pv s cs = Some res" by simp
    from Alt.IH(1)[OF this] obtain u v new where
      "s = u @ v" "accepts ic a pv u v" "k (p + length u) (last_of pv u) v (new @ cs) = Some res"
      "caps_ok ic a p u new" by blast
    then show ?thesis
      by (intro exI[of _ u] exI[of _ v] exI[of _ new]) (simp add: caps_ok_AltL)
  qed
next
  case Eps
  then show ?case
    by (intro exI[of _ "[]"] exI[of _ s] exI[of _ "[]"]) (simp add: caps_ok_Nil)
next
  case (Grp n r)
  from Grp.prems have
    "re_m ic r (\<lambda>p' pv' s' cs'. k p' pv' s' ((n, p, p') # cs')) p pv s cs = Some res" by simp
  from Grp.IH[OF this] obtain u v new where 1:
    "s = u @ v" "accepts ic r pv u v"
    "k (p + length u) (last_of pv u) v ((n, p, p + length u) # new @ cs) = Some res"
    "caps_ok ic r p u new" by blast
  from caps_ok_Grp[OF 1(4,2)] 1(1,2,3) show ?case
    by (intro exI[of _ u] exI[of _ v] exI[of _ "(n, p, p + length u) # new"]) simp
next
  case WordB
  then show ?case
    by (intro exI[of _ "[]"] exI[of _ s] exI[of _ "[]"])
       (auto simp: caps_ok_Nil split: if_splits)
next
  case (NotAhead r)
  have snd: "re_sound ic (NotAhead r)" using re_m_correct by blast
  from re_soundD[OF snd NotAhead.prems] have a: "accepts ic (NotAhead r) pv [] s" by auto
  from NotAhead.prems have "k p pv s cs = Some res" by (auto split: option.splits)
  with a show ?case
    by (intro exI[of _ "[]"] exI[of _ s] exI[of _ "[]"]) (simp add: caps_ok_Nil)
next
  case (NotBehind c)
  then show ?case
    by (intro exI[of _ "[]"] exI[of _ s] exI[of _ "[]"])
       (auto simp: caps_ok_Nil split: option.splits if_splits)
qed

lemma re_m_group:
  assumes m: "re_m ic r accept (length pre) pv rest [] = Some (e, pv', s', cs)"
    and b: "binds r n"
    and g: "\<And>r'. (n, r') \<in> set (grps r) \<Longrightarrow> r' = gr"
  shows "\<exists>qv w. accepts ic gr qv (group_text (pre @ rest) (length pre, e, cs) n) w"
proof -
  from re_m_caps[OF m] obtain u v new where 1: "rest = u @ v"
    "accept (length pre + length u) (last_of pv u) v (new @ []) = Some (e, pv', s', cs)"
    "caps_ok ic r (length pre) u new" by blast
  from 1(2) have cs: "cs = new" by (simp add: accept_def)
  from 1(3) b have "n \<in> fst ` set new" by (simp add: caps_ok_def)
  then obtain y where y: "map_of new n = Some y"
    by (cases "map_of new n") (auto simp: map_of_eq_None_iff)
  obtain x z where xz: "y = (x, z)" by (cases y)
  from y xz have "(n, x, z) \<in> set new" by (auto dest: map_of_SomeD)
  with 1(3) obtain r' qv w where 2: "length pre \<le> x" "x \<le> z" "z \<le> length pre + length u"
    "(n, r') \<in> set (grps r)" "accepts ic r' qv (slice u (x - length pre) (z - length pre)) w"
    unfolding caps_ok_def by blast
  from g[OF 2(4)] have r': "r' = gr" .
  have "group_text (pre @ rest) (length pre, e, cs) n = slice (pre @ u @ v) x z"
    using y xz cs 1(1) by (simp add: group_text_def)
  also have "\<dots> = slice (u @ v) (x - length pre) (z - length pre)"
    using 2(1) by (rule slice_append2)
  also have "\<dots> = slice u (x - length pre) (z - length pre)"
    using 2(3) by (intro slice_append1) simp
  finally show ?thesis using 2(5) r' by auto
qed

lemma re_search_group:
  assumes s: "re_search ic r s = Some m"
    and b: "binds r n"
    and g: "\<And>r'. (n, r') \<in> set (grps r) \<Longrightarrow> r' = gr"
  shows "\<exists>qv w. accepts ic gr qv (group_text s m n) w"
proof -
  from s obtain st e pv' s' cs where 1: "re_search_at ic r 0 None s = Some (st, e, pv', s', cs)"
    and m: "m = (st, e, cs)"
    by (auto simp: re_search_def split: option.splits)
  from re_search_at_match[OF 1] obtain pre rest where 2: "s = pre @ rest" "st = length pre"
    "re_m ic r accept st (last_of None pre) rest [] = Some (e, pv', s', cs)" by auto
  from re_m_group[OF 2(3)[unfolded 2(2)] b g] show ?thesis
    unfolding m 2(1) 2(2) by simp
qed

lemma finditer_group:
  assumes s: "m \<in> set (finditer ic r s)"
    and b: "binds r n"
    and g: "\<And>r'. (n, r') \<in> set (grps r) \<Longrightarrow> r' = gr"
  shows "\<exists>qv w. accepts ic gr qv (group_text s m n) w"
proof -
  from s have "m \<in> set (finditer_at ic r 0 None s)" by (simp add: finditer_def)
  from finditer_at_match[OF this] obtain pre rest pv' s' where 1:
    "s = pre @ rest" "fst m = length pre"
    "re_m ic r accept (fst m) (last_of None pre) rest [] =
       Some (fst (snd m), pv', s', snd (snd m))" by auto
  from re_m_group[OF 1(3)[unfolded 1(2)] b g]
  have "\<exists>qv w. accepts ic gr qv
          (group_text (pre @ rest) (length pre, fst (snd m), snd (snd m)) n) w" .
  moreover have "(length pre, fst (snd m), snd (snd m)) = m" using 1(2) by (cases m) auto
  ultimately show ?thesis using 1(1) by simp
qed

text \<open>
  The target name of a located statement is the group \<open>name\<close> of one of the two
  patterns of the receiving clause, or the group \<open>table\<close> of the statement; each is
  \<open>\w+\<close>, so the name is not empty and consists of word characters.
\<close>

lemma find_selects_target_word:
  assumes "s \<in> set (find_selects src)"
  shows "target_name s \<noteq> [] \<and> list_all is_word (target_name s)"
proof -
  from assms obtain m where m: "m \<in> set (finditer True SELECT_STAR_RE src)"
    and s: "s = select_of src m"
    by (auto simp: find_selects_def)
  have t: "\<exists>qv w. accepts True (Plus True WordC) qv (group_text src m ''table'') w"
    by (rule finditer_group[OF m])
       (auto simp: SELECT_STAR_RE_def SELECT_STAR_INNER_def Opt_def Plus_def)
  have a: "\<exists>qv w. accepts True (Plus True WordC) qv (group_text body mt ''name'') w"
    if "re_search True INTO_TABLE_RE body = Some mt" for body mt
    by (rule re_search_group[OF that]) (auto simp: INTO_TABLE_RE_def Plus_def)
  have b: "\<exists>qv w. accepts True (Plus True WordC) qv (group_text body mt ''name'') w"
    if "re_search True INTO_WA_RE body = Some mt" for body mt
    by (rule re_search_group[OF that]) (auto simp: INTO_WA_RE_def Plus_def)
  have "\<exists>qv w. accepts True (Plus True WordC) qv (target_name s) w"
    unfolding s select_of_def Let_def using t a b
    by (auto split: option.splits)
  then obtain qv w where "accepts True (Plus True WordC) qv (target_name s) w" by blast
  from accepts_PlusD[OF this] show ?thesis by (simp add: list_all_iff)
qed


section \<open>Dynamic access to a component\<close>

definition ci_eq :: "string \<Rightarrow> string \<Rightarrow> bool" where
  "ci_eq a b = (map lower a = map lower b)"

definition spaces :: "string \<Rightarrow> bool" where
  "spaces w = (w \<noteq> [] \<and> list_all is_space w)"

text \<open>
  \<open>access_text n t\<close>: the text \<open>t\<close> reads \<open>ASSIGN COMPONENT c OF STRUCTURE n\<close>,
  in any letter case and with any white space between the words, with a selector \<open>c\<close>
  of one word.

  \<open>exact_access flat n\<close>: the corpus contains such a text and no word character follows
  it, so that the operand is the name \<open>n\<close> itself and not the beginning of a longer
  name.

  \<open>dynamic_access flat n\<close>: the corpus contains such a text and a word boundary follows
  it: of the last character of the operand and the character after it, one is a word
  character and the other is not (or the corpus ends). For a name of word characters this
  is \<open>exact_access\<close>; a name that ends in \<open>>\<close> has a word boundary after it only when
  a word character follows.
\<close>

definition access_text :: "string \<Rightarrow> string \<Rightarrow> bool" where
  "access_text n t =
     (\<exists>k1 w1 k2 w2 cn w3 k3 w4 k4 w5 n'.
        t = k1 @ w1 @ k2 @ w2 @ cn @ w3 @ k3 @ w4 @ k4 @ w5 @ n' \<and>
        ci_eq ''ASSIGN'' k1 \<and> spaces w1 \<and> ci_eq ''COMPONENT'' k2 \<and> spaces w2 \<and>
        cn \<noteq> [] \<and> list_all is_word cn \<and> spaces w3 \<and> ci_eq ''OF'' k3 \<and> spaces w4 \<and>
        ci_eq ''STRUCTURE'' k4 \<and> spaces w5 \<and> ci_eq n n')"

definition exact_access :: "string \<Rightarrow> string \<Rightarrow> bool" where
  "exact_access flat n =
     (\<exists>pre t post. flat = pre @ t @ post \<and> access_text n t \<and>
        \<not> word_opt (first_char post))"

definition dynamic_access :: "string \<Rightarrow> string \<Rightarrow> bool" where
  "dynamic_access flat n =
     (\<exists>pre t post. flat = pre @ t @ post \<and> access_text n t \<and>
        word_opt (last_of None t) \<noteq> word_opt (first_char post))"

lemma list_all2_ceq: "list_all2 (ceq True) l u \<longleftrightarrow> map lower l = map lower u"
proof (induction l arbitrary: u)
  case Nil
  then show ?case by auto
next
  case (Cons a l)
  then show ?case by (cases u) (auto simp: ceq_def)
qed

lemma accepts_Lit_ci: "ci_eq l u \<Longrightarrow> accepts True (Lit l) pv u v"
  by (simp add: list_all2_ceq ci_eq_def)

lemma accepts_Plus:
  "w \<noteq> [] \<Longrightarrow> list_all (in_class c) w \<Longrightarrow> accepts ic (Plus g c) pv w v"
proof -
  assume "w \<noteq> []" and all: "list_all (in_class c) w"
  then obtain x xs where w: "w = [x] @ xs" by (cases w) auto
  with all have "in_class c x" "list_all (in_class c) xs" by auto
  then show ?thesis
    unfolding Plus_def accepts.simps w by blast
qed

lemma accepts_Plus_space: "spaces w \<Longrightarrow> accepts ic (Plus g SpaceC) pv w v"
  by (rule accepts_Plus) (auto simp: spaces_def list_all_iff)

lemma accepts_Plus_word:
  "w \<noteq> [] \<Longrightarrow> list_all is_word w \<Longrightarrow> accepts ic (Plus g WordC) pv w v"
  by (rule accepts_Plus) (auto simp: list_all_iff)

lemma last_of_nonempty: "w \<noteq> [] \<Longrightarrow> last_of pv w = last_of None w"
  by (induction w arbitrary: pv) auto

lemma last_of_last: "w \<noteq> [] \<Longrightarrow> last_of pv w = Some (last w)"
  by (induction w arbitrary: pv) auto

lemma access_textI:
  assumes "ci_eq ''ASSIGN'' k1" "spaces w1" "ci_eq ''COMPONENT'' k2" "spaces w2"
    "cn \<noteq> []" "list_all is_word cn" "spaces w3" "ci_eq ''OF'' k3" "spaces w4"
    "ci_eq ''STRUCTURE'' k4" "spaces w5" "ci_eq n n'"
  shows "access_text n (k1 @ w1 @ k2 @ w2 @ cn @ w3 @ k3 @ w4 @ k4 @ w5 @ n')"
  unfolding access_text_def using assms by blast

lemma exact_accessI:
  "flat = pre @ t @ post \<Longrightarrow> access_text n t \<Longrightarrow> \<not> word_opt (first_char post) \<Longrightarrow>
   exact_access flat n"
  unfolding exact_access_def by blast

lemma dynamic_accessI:
  "flat = pre @ t @ post \<Longrightarrow> access_text n t \<Longrightarrow>
   word_opt (last_of None t) \<noteq> word_opt (first_char post) \<Longrightarrow> dynamic_access flat n"
  unfolding dynamic_access_def by blast

lemma dynamic_access_accepts:
  assumes "ci_eq ''ASSIGN'' k1" "spaces w1" "ci_eq ''COMPONENT'' k2" "spaces w2"
    "cn \<noteq> []" "list_all is_word cn" "spaces w3" "ci_eq ''OF'' k3" "spaces w4"
    "ci_eq ''STRUCTURE'' k4" "spaces w5" "ci_eq n n'"
    "word_opt (last_of None (w5 @ n')) \<noteq> word_opt (first_char post)"
  shows "accepts True (ASSIGN_COMPONENT_RE n) pv
           (k1 @ w1 @ k2 @ w2 @ cn @ w3 @ k3 @ w4 @ k4 @ w5 @ n' @ []) post"
proof -
  have w5: "w5 \<noteq> []" using assms(11) by (simp add: spaces_def)
  have b: "accepts True (seqs [WordB]) (last_of (last_of pv0 w5) n') [] post" for pv0
  proof -
    have "last_of (last_of pv0 w5) n' = last_of pv0 (w5 @ n')" by simp
    also have "\<dots> = last_of None (w5 @ n')" using w5 by (intro last_of_nonempty) simp
    finally show ?thesis using assms(13) by simp
  qed
  show ?thesis
    unfolding ASSIGN_COMPONENT_RE_def
    by (intro accepts_seqsI accepts_Lit_ci accepts_Plus_space accepts_Plus_word assms b)
qed

lemma dynamic_access_found:
  assumes "dynamic_access flat n"
  shows "re_search True (ASSIGN_COMPONENT_RE n) flat \<noteq> None"
proof -
  from assms obtain pre t post where f: "flat = pre @ t @ post" and t: "access_text n t"
    and bd: "word_opt (last_of None t) \<noteq> word_opt (first_char post)"
    unfolding dynamic_access_def by blast
  from t obtain k1 w1 k2 w2 cn w3 k3 w4 k4 w5 n' where
    t': "t = k1 @ w1 @ k2 @ w2 @ cn @ w3 @ k3 @ w4 @ k4 @ w5 @ n'"
    and a: "ci_eq ''ASSIGN'' k1" "spaces w1" "ci_eq ''COMPONENT'' k2" "spaces w2"
      "cn \<noteq> []" "list_all is_word cn" "spaces w3" "ci_eq ''OF'' k3" "spaces w4"
      "ci_eq ''STRUCTURE'' k4" "spaces w5" "ci_eq n n'"
    unfolding access_text_def by blast
  have w5: "w5 @ n' \<noteq> []" using a(11) by (simp add: spaces_def)
  have "last_of None t = last_of None ((k1 @ w1 @ k2 @ w2 @ cn @ w3 @ k3 @ w4 @ k4) @ (w5 @ n'))"
    unfolding t' by simp
  also have "\<dots> = last_of (last_of None (k1 @ w1 @ k2 @ w2 @ cn @ w3 @ k3 @ w4 @ k4)) (w5 @ n')"
    by (rule last_of_append)
  also have "\<dots> = last_of None (w5 @ n')" using w5 by (rule last_of_nonempty)
  finally have "word_opt (last_of None (w5 @ n')) \<noteq> word_opt (first_char post)"
    using bd by simp
  note acc = dynamic_access_accepts[OF a this, of "last_of None pre"]
  let ?u = "k1 @ w1 @ k2 @ w2 @ cn @ w3 @ k3 @ w4 @ k4 @ w5 @ n' @ []"
  have "flat = pre @ ?u @ post" using f t' by simp
  with acc show ?thesis
    using re_search_None_iff[of True "ASSIGN_COMPONENT_RE n" flat] by blast
qed

text \<open>For a name of word characters, \<open>exact_access\<close> is \<open>dynamic_access\<close>.\<close>

lemma is_word_lower: "is_word (lower c) = is_word c"
proof (cases "is_upper c")
  case True
  from lower_of_upper[OF this] True show ?thesis by (simp add: is_word_def)
next
  case False
  then show ?thesis by (simp add: lower_def)
qed

lemma ci_eq_word:
  assumes "ci_eq n n'" and "n \<noteq> []" and "list_all is_word n"
  shows "n' \<noteq> [] \<and> list_all is_word n'"
proof -
  from assms(1) have m: "map lower n = map lower n'" by (simp add: ci_eq_def)
  with assms(2) have "n' \<noteq> []" by auto
  moreover have "list_all is_word n'"
  proof -
    have "list_all is_word (map lower n)"
      using assms(3) by (simp add: list_all_iff is_word_lower)
    with m have "list_all is_word (map lower n')" by simp
    then show ?thesis by (simp add: list_all_iff is_word_lower)
  qed
  ultimately show ?thesis by simp
qed

lemma exact_access_dynamic:
  assumes "n \<noteq> []" and "list_all is_word n"
  shows "exact_access flat n \<longleftrightarrow> dynamic_access flat n"
proof -
  have "word_opt (last_of None t)" if "access_text n t" for t
  proof -
    from that obtain a w5 n' where t: "t = a @ w5 @ n'" and c: "ci_eq n n'"
      unfolding access_text_def
      by (metis append.assoc)
    from ci_eq_word[OF c assms] have n': "n' \<noteq> []" "list_all is_word n'" by simp_all
    have "last_of None t = last_of (last_of None (a @ w5)) n'" unfolding t by simp
    also have "\<dots> = Some (last n')" using n'(1) by (rule last_of_last)
    finally show ?thesis using n' by (simp add: word_opt_def list_all_iff)
  qed
  then show ?thesis
    unfolding exact_access_def dynamic_access_def by blast
qed

lemma select_of_names:
  "target_name (select_of t m) \<in>
     target_names (table (select_of t m)) (target_type (select_of t m))
       (target_name (select_of t m)) aliases"
  by (simp add: select_of_def Let_def target_names_def split: option.splits)

lemma ambiguous_analyze_sel:
  "ambiguous (analyze_sel flat aliases s) =
     (\<exists>n\<in>target_names (table s) (target_type s) (target_name s) aliases.
        re_search True (ASSIGN_COMPONENT_RE n) flat \<noteq> None)"
  by (simp add: analyze_sel_def collect_used_fields_def Let_def split_def)



text \<open>
  Two scenarios. A work area \<open>wa_vbak\<close> with a dynamic access on it; an internal table
  \<open>it_mara\<close> that is looped into the work area \<open>wa_mara\<close>, which the alias map records
  for the table, with a dynamic access on the work area. Both findings are ambiguous and
  carry no suggestion, though a field of the target is read.
\<close>

definition vbak_text :: string where
  "vbak_text =
     ''SELECT * FROM vbak INTO wa_vbak. ASSIGN COMPONENT lv_name OF STRUCTURE wa_vbak TO <fs>. WRITE wa_vbak-vbeln.''"

definition vbak_sel :: sel where
  "vbak_sel =
     \<lparr>table = ''vbak'', target_type = Wa, target_name = ''wa_vbak'',
      sel_text = ''SELECT * FROM vbak INTO wa_vbak.'', span = (0, 32)\<rparr>"

definition loop_access_text :: string where
  "loop_access_text =
     ''SELECT * FROM mara INTO TABLE it_mara. LOOP AT it_mara INTO wa_mara. ASSIGN COMPONENT lv_name OF STRUCTURE wa_mara TO <cmp>. ENDLOOP. WRITE wa_mara-matnr.''"

definition loop_access_sel :: sel where
  "loop_access_sel =
     \<lparr>table = ''mara'', target_type = Itab, target_name = ''it_mara'',
      sel_text = ''SELECT * FROM mara INTO TABLE it_mara.'', span = (0, 38)\<rparr>"

lemma vbak_selects: "find_selects vbak_text = [vbak_sel]"
  by code_simp

lemma vbak_split:
  "vbak_text @ nl =
     ''SELECT * FROM vbak INTO wa_vbak. '' @
     (''ASSIGN'' @ '' '' @ ''COMPONENT'' @ '' '' @ ''lv_name'' @ '' '' @ ''OF'' @ '' '' @
      ''STRUCTURE'' @ '' '' @ ''wa_vbak'') @
     ('' TO <fs>. WRITE wa_vbak-vbeln.'' @ nl)"
  by code_simp

lemma vbak_access:
  "access_text ''wa_vbak''
     (''ASSIGN'' @ '' '' @ ''COMPONENT'' @ '' '' @ ''lv_name'' @ '' '' @ ''OF'' @ '' '' @
      ''STRUCTURE'' @ '' '' @ ''wa_vbak'')"
  by (rule access_textI; code_simp)

lemma vbak_exact_access: "exact_access (vbak_text @ nl) ''wa_vbak''"
  by (rule exact_accessI[OF vbak_split vbak_access]) code_simp

lemma loop_access_selects: "find_selects loop_access_text = [loop_access_sel]"
  by code_simp

lemma loop_access_aliases:
  "build_aliases (loop_access_text @ nl) ''it_mara'' = Some {''wa_mara''}"
  by code_simp

lemma loop_access_split:
  "loop_access_text @ nl =
     ''SELECT * FROM mara INTO TABLE it_mara. LOOP AT it_mara INTO wa_mara. '' @
     (''ASSIGN'' @ '' '' @ ''COMPONENT'' @ '' '' @ ''lv_name'' @ '' '' @ ''OF'' @ '' '' @
      ''STRUCTURE'' @ '' '' @ ''wa_mara'') @
     ('' TO <cmp>. ENDLOOP. WRITE wa_mara-matnr.'' @ nl)"
  by code_simp

lemma loop_access_access:
  "access_text ''wa_mara''
     (''ASSIGN'' @ '' '' @ ''COMPONENT'' @ '' '' @ ''lv_name'' @ '' '' @ ''OF'' @ '' '' @
      ''STRUCTURE'' @ '' '' @ ''wa_mara'')"
  by (rule access_textI; code_simp)

lemma loop_access_dynamic: "dynamic_access (loop_access_text @ nl) ''wa_mara''"
  by (rule dynamic_accessI[OF loop_access_split loop_access_access]) code_simp



text \<open>
  Three scenarios in which the corpus has a dynamic access and the finding is not
  ambiguous. In the first the target is an internal table and the operand is a field
  symbol that is no alias of the table. In the second the operand is the target name
  itself and the selector is \<open>sy-index\<close>, which is not one word. In the third the
  operand is \<open><fs>\<close>, which the alias map records for the target, followed by a blank,
  so that no word boundary follows it.
\<close>

definition fs_access_text :: string where
  "fs_access_text =
     ''SELECT * FROM mara INTO TABLE it_mara. ASSIGN COMPONENT lv_name OF STRUCTURE <fs> TO <cmp>. WRITE it_mara-matnr.''"

definition fs_access_unit :: Unit where
  "fs_access_unit = spfli_unit\<lparr>code := Some fs_access_text\<rparr>"

definition fs_access_finding :: sel_result where
  "fs_access_finding =
     \<lparr>table = ''mara'', target_type = Itab, target_name = ''it_mara'',
      start_char_in_unit = 0, end_char_in_unit = 38,
      used_fields = [''matnr''], ambiguous = False,
      suggested_fields = Some [''matnr''],
      suggested_statement =
        Some (''SELECT matnr FROM mara'' @ nl @
              ''  INTO CORRESPONDING FIELDS OF TABLE it_mara.'')\<rparr>"

definition index_access_text :: string where
  "index_access_text =
     ''SELECT * FROM vbak INTO wa_vbak. ASSIGN COMPONENT sy-index OF STRUCTURE wa_vbak TO <fs>. WRITE wa_vbak-vbeln.''"

definition index_access_unit :: Unit where
  "index_access_unit = spfli_unit\<lparr>code := Some index_access_text\<rparr>"

definition index_access_finding :: sel_result where
  "index_access_finding =
     \<lparr>table = ''vbak'', target_type = Wa, target_name = ''wa_vbak'',
      start_char_in_unit = 0, end_char_in_unit = 32,
      used_fields = [''vbeln''], ambiguous = False,
      suggested_fields = Some [''vbeln''],
      suggested_statement =
        Some (''SELECT vbeln FROM vbak'' @ nl @
              ''  INTO CORRESPONDING FIELDS OF wa_vbak.'')\<rparr>"

definition alias_access_text :: string where
  "alias_access_text =
     ''SELECT * FROM mara INTO TABLE it_mara. LOOP AT it_mara ASSIGNING <fs>. ASSIGN COMPONENT lv_name OF STRUCTURE <fs> TO <cmp>. ENDLOOP. WRITE it_mara-matnr.''"

definition alias_access_unit :: Unit where
  "alias_access_unit = spfli_unit\<lparr>code := Some alias_access_text\<rparr>"

definition alias_access_finding :: sel_result where
  "alias_access_finding =
     \<lparr>table = ''mara'', target_type = Itab, target_name = ''it_mara'',
      start_char_in_unit = 0, end_char_in_unit = 38,
      used_fields = [''matnr''], ambiguous = False,
      suggested_fields = Some [''matnr''],
      suggested_statement =
        Some (''SELECT matnr FROM mara'' @ nl @
              ''  INTO CORRESPONDING FIELDS OF TABLE it_mara.'')\<rparr>"

lemma fs_access_findings:
  "map (analyze_sel (fs_access_text @ nl) (build_aliases (fs_access_text @ nl)))
     (find_selects fs_access_text) = [fs_access_finding]"
  by code_simp

lemma fs_access_present:
  "re_search True ASSIGN_COMPONENT_FS_RE (fs_access_text @ nl) \<noteq> None"
  by code_simp

lemma index_access_findings:
  "map (analyze_sel (index_access_text @ nl) (build_aliases (index_access_text @ nl)))
     (find_selects index_access_text) = [index_access_finding]"
  by code_simp

lemma index_access_parts:
  "index_access_text =
     ''SELECT * FROM vbak INTO wa_vbak. '' @
     ''ASSIGN COMPONENT sy-index OF STRUCTURE wa_vbak'' @
     '' TO <fs>. WRITE wa_vbak-vbeln.''"
  by code_simp

lemma alias_access_findings:
  "map (analyze_sel (alias_access_text @ nl) (build_aliases (alias_access_text @ nl)))
     (find_selects alias_access_text) = [alias_access_finding]"
  by code_simp

lemma alias_access_aliases:
  "build_aliases (alias_access_text @ nl) ''it_mara'' = Some {''<fs>''}"
  by code_simp

lemma alias_access_parts:
  "alias_access_text =
     ''SELECT * FROM mara INTO TABLE it_mara. LOOP AT it_mara ASSIGNING <fs>. '' @
     ''ASSIGN COMPONENT lv_name OF STRUCTURE <fs>'' @
     '' TO <cmp>. ENDLOOP. WRITE it_mara-matnr.''"
  by code_simp



section \<open>Remediate on a text without a statement to rewrite\<close>

text \<open>
  A fetch-all statement, as a text: \<open>SELECT\<close>, white space, an optional
  \<open>SINGLE\<close> with white space, \<open>*\<close>, white space, \<open>FROM\<close>, white space, a
  table name of word characters, any text and a period; the two words in any letter case.
  A text contains such a statement when some part of it is one.
\<close>

definition fetch_all_statement :: "string \<Rightarrow> bool" where
  "fetch_all_statement u =
     (\<exists>k1 w1 sg w2 k2 w3 tb body.
        u = k1 @ w1 @ sg @ ''*'' @ w2 @ k2 @ w3 @ tb @ body @ ''.'' \<and>
        ci_eq ''SELECT'' k1 \<and> spaces w1 \<and>
        (sg = [] \<or> (\<exists>k w. sg = k @ w \<and> ci_eq ''SINGLE'' k \<and> spaces w)) \<and>
        spaces w2 \<and> ci_eq ''FROM'' k2 \<and> spaces w3 \<and> tb \<noteq> [] \<and> list_all is_word tb)"

definition contains_fetch_all :: "string \<Rightarrow> bool" where
  "contains_fetch_all src = (\<exists>pre u post. src = pre @ u @ post \<and> fetch_all_statement u)"

lemma accepts_Lit_ciD: "accepts True (Lit l) pv u v \<Longrightarrow> ci_eq l u"
  by (simp add: list_all2_ceq ci_eq_def)

lemma accepts_Lit_char:
  assumes "accepts True (Lit [c]) pv u v" and "\<not> is_lower c" and "\<not> is_upper c"
  shows "u = [c]"
proof -
  from assms(1) obtain x where x: "u = [x]" "ceq True c x"
    by (auto simp: list_all2_Cons1)
  have "lower c = c" using assms(3) by (simp add: lower_def)
  with ceq_no_letter[OF x(2)] assms(2) have "x = c" by simp
  with x show ?thesis by simp
qed

lemma period_facts: "\<not> is_lower CHR ''.''" "\<not> is_upper CHR ''.''"
  by code_simp+

text \<open>What \<open>SELECT_STAR_RE\<close> matches is a fetch-all statement, and the converse.\<close>

lemma select_star_shape:
  assumes "accepts True SELECT_STAR_RE pv u v"
  shows "fetch_all_statement u"
proof -
  let ?opt = "Opt (seqs [Lit ''SINGLE'', Plus True SpaceC])"
  let ?t = "[Grp ''table'' (Plus True WordC), Grp ''body'' (Star False Dot), Lit ''.'']"
  from assms have "accepts True
      (seqs (Lit ''SELECT'' # Plus True SpaceC # ?opt # Lit ''*'' # Plus True SpaceC #
             Lit ''FROM'' # Plus True SpaceC # ?t)) pv u v"
    by (simp only: SELECT_STAR_RE_def SELECT_STAR_INNER_def accepts.simps)
  then obtain u1 r1 where 1: "u = u1 @ r1" "accepts True (Lit ''SELECT'') pv u1 (r1 @ v)"
    "accepts True (seqs (Plus True SpaceC # ?opt # Lit ''*'' # Plus True SpaceC #
             Lit ''FROM'' # Plus True SpaceC # ?t)) (last_of pv u1) r1 v"
    by (rule accepts_seqs_ConsD)
  define p1 where "p1 = last_of pv u1"
  from 1(3) obtain u2 r2 where 2: "r1 = u2 @ r2"
    "accepts True (Plus True SpaceC) p1 u2 (r2 @ v)"
    "accepts True (seqs (?opt # Lit ''*'' # Plus True SpaceC #
             Lit ''FROM'' # Plus True SpaceC # ?t)) (last_of p1 u2) r2 v"
    unfolding p1_def by (rule accepts_seqs_ConsD)
  define p2 where "p2 = last_of p1 u2"
  from 2(3) obtain u3 r3 where 3: "r2 = u3 @ r3"
    "accepts True ?opt p2 u3 (r3 @ v)"
    "accepts True (seqs (Lit ''*'' # Plus True SpaceC #
             Lit ''FROM'' # Plus True SpaceC # ?t)) (last_of p2 u3) r3 v"
    unfolding p2_def by (rule accepts_seqs_ConsD)
  define p3 where "p3 = last_of p2 u3"
  from 3(3) obtain u4 r4 where 4: "r3 = u4 @ r4"
    "accepts True (Lit ''*'') p3 u4 (r4 @ v)"
    "accepts True (seqs (Plus True SpaceC #
             Lit ''FROM'' # Plus True SpaceC # ?t)) (last_of p3 u4) r4 v"
    unfolding p3_def by (rule accepts_seqs_ConsD)
  define p4 where "p4 = last_of p3 u4"
  from 4(3) obtain u5 r5 where 5: "r4 = u5 @ r5"
    "accepts True (Plus True SpaceC) p4 u5 (r5 @ v)"
    "accepts True (seqs (Lit ''FROM'' # Plus True SpaceC # ?t)) (last_of p4 u5) r5 v"
    unfolding p4_def by (rule accepts_seqs_ConsD)
  define p5 where "p5 = last_of p4 u5"
  from 5(3) obtain u6 r6 where 6: "r5 = u6 @ r6"
    "accepts True (Lit ''FROM'') p5 u6 (r6 @ v)"
    "accepts True (seqs (Plus True SpaceC # ?t)) (last_of p5 u6) r6 v"
    unfolding p5_def by (rule accepts_seqs_ConsD)
  define p6 where "p6 = last_of p5 u6"
  from 6(3) obtain u7 r7 where 7: "r6 = u7 @ r7"
    "accepts True (Plus True SpaceC) p6 u7 (r7 @ v)"
    "accepts True (seqs ?t) (last_of p6 u7) r7 v"
    unfolding p6_def by (rule accepts_seqs_ConsD)
  define p7 where "p7 = last_of p6 u7"
  from 7(3) obtain u8 r8 where 8: "r7 = u8 @ r8"
    "accepts True (Grp ''table'' (Plus True WordC)) p7 u8 (r8 @ v)"
    "accepts True (seqs [Grp ''body'' (Star False Dot), Lit ''.'']) (last_of p7 u8) r8 v"
    unfolding p7_def by (rule accepts_seqs_ConsD)
  define p8 where "p8 = last_of p7 u8"
  from 8(3) obtain u9 r9 where 9: "r8 = u9 @ r9"
    "accepts True (seqs [Lit ''.'']) (last_of p8 u9) r9 v"
    unfolding p8_def by (rule accepts_seqs_ConsD)
  from 9(2) have "accepts True (Lit ''.'') (last_of p8 u9) r9 v" by simp
  from accepts_Lit_char[OF this period_facts] have r9: "r9 = ''.''" .
  from accepts_Lit_char[OF 4(2) star_facts(1,2)] have u4: "u4 = ''*''" .
  have k1: "ci_eq ''SELECT'' u1" using 1(2) by (rule accepts_Lit_ciD)
  have k2: "ci_eq ''FROM'' u6" using 6(2) by (rule accepts_Lit_ciD)
  have w1: "spaces u2" using accepts_PlusD[OF 2(2)] by (simp add: spaces_def list_all_iff)
  have w2: "spaces u5" using accepts_PlusD[OF 5(2)] by (simp add: spaces_def list_all_iff)
  have w3: "spaces u7" using accepts_PlusD[OF 7(2)] by (simp add: spaces_def list_all_iff)
  from 8(2) have "accepts True (Plus True WordC) p7 u8 (r8 @ v)" by simp
  from accepts_PlusD[OF this] have tb: "u8 \<noteq> []" "list_all is_word u8"
    by (simp_all add: list_all_iff)
  have sg: "u3 = [] \<or> (\<exists>k w. u3 = k @ w \<and> ci_eq ''SINGLE'' k \<and> spaces w)"
  proof (cases "u3 = []")
    case True
    then show ?thesis by simp
  next
    case False
    with 3(2) have "accepts True (seqs [Lit ''SINGLE'', Plus True SpaceC]) p2 u3 (r3 @ v)"
      by (simp add: Opt_def)
    then obtain a b where ab: "u3 = a @ b"
      "accepts True (Lit ''SINGLE'') p2 a (b @ r3 @ v)"
      "accepts True (seqs [Plus True SpaceC]) (last_of p2 a) b (r3 @ v)"
      by (rule accepts_seqs_ConsD)
    from ab(3) have "accepts True (Plus True SpaceC) (last_of p2 a) b (r3 @ v)" by simp
    from accepts_PlusD[OF this] have "spaces b" by (simp add: spaces_def list_all_iff)
    moreover have "ci_eq ''SINGLE'' a" using ab(2) by (rule accepts_Lit_ciD)
    ultimately show ?thesis using ab(1) by blast
  qed
  have "u = u1 @ u2 @ u3 @ ''*'' @ u5 @ u6 @ u7 @ u8 @ u9 @ ''.''"
    using 1(1) 2(1) 3(1) 4(1) 5(1) 6(1) 7(1) 8(1) 9(1) r9 u4 by simp
  with k1 w1 sg w2 k2 w3 tb show ?thesis
    unfolding fetch_all_statement_def by blast
qed

lemma fetch_all_accepts:
  assumes "fetch_all_statement u"
  shows "accepts True SELECT_STAR_RE pv u v"
proof -
  from assms obtain k1 w1 sg w2 k2 w3 tb body where
    u: "u = k1 @ w1 @ sg @ ''*'' @ w2 @ k2 @ w3 @ tb @ body @ ''.''"
    and a: "ci_eq ''SELECT'' k1" "spaces w1" "spaces w2" "ci_eq ''FROM'' k2" "spaces w3"
    and tb: "tb \<noteq> []" "list_all is_word tb"
    and sg: "sg = [] \<or> (\<exists>k w. sg = k @ w \<and> ci_eq ''SINGLE'' k \<and> spaces w)"
    unfolding fetch_all_statement_def by blast
  have o: "accepts True (Opt (seqs [Lit ''SINGLE'', Plus True SpaceC])) qv sg w" for qv w
  proof (cases "sg = []")
    case True
    then show ?thesis by (simp add: Opt_def)
  next
    case False
    with sg obtain k w' where kw: "sg = k @ w'" "ci_eq ''SINGLE'' k" "spaces w'" by blast
    have "accepts True (seqs [Plus True SpaceC]) (last_of qv k) w' w"
      using accepts_Plus_space[OF kw(3)] by simp
    with accepts_Lit_ci[OF kw(2)]
    have "accepts True (seqs [Lit ''SINGLE'', Plus True SpaceC]) qv (k @ w') w"
      by (intro accepts_seqsI)
    then show ?thesis by (simp add: Opt_def kw(1))
  qed
  have s: "accepts True (Lit ''*'') qv ''*'' w" for qv w
    by (rule accepts_Lit_ci) (simp add: ci_eq_def)
  have t: "accepts True (Grp ''table'' (Plus True WordC)) qv tb w" for qv w
    using accepts_Plus_word[OF tb] by simp
  have b: "accepts True (Grp ''body'' (Star False Dot)) qv body w" for qv w
    by (simp add: list_all_iff)
  have d: "accepts True (seqs [Lit ''.'']) qv ''.'' w" for qv w
    using accepts_Lit_ci[of "''.''" "''.''"] by (simp add: ci_eq_def)
  have "accepts True SELECT_STAR_INNER pv
          (k1 @ w1 @ sg @ ''*'' @ w2 @ k2 @ w3 @ tb @ body @ ''.'') v"
    unfolding SELECT_STAR_INNER_def
    by (intro accepts_seqsI accepts_Lit_ci accepts_Plus_space a o s t b d)
  then show ?thesis by (simp add: SELECT_STAR_RE_def u)
qed

text \<open>The Locator finds nothing exactly in a text that contains no fetch-all statement.\<close>

lemma finditer_Nil_iff: "finditer ic r s = [] \<longleftrightarrow> re_search ic r s = None"
  unfolding finditer_def re_search_def
  by (subst finditer_at.simps) (auto split: option.splits)

lemma find_selects_Nil_iff: "find_selects src = [] \<longleftrightarrow> \<not> contains_fetch_all src"
proof -
  have "find_selects src = [] \<longleftrightarrow> re_search True SELECT_STAR_RE src = None"
    by (simp add: find_selects_def finditer_Nil_iff)
  also have "\<dots> \<longleftrightarrow> \<not> (\<exists>pre u post. src = pre @ u @ post \<and>
                       accepts True SELECT_STAR_RE (last_of None pre) u post)"
    by (rule re_search_None_iff)
  also have "\<dots> \<longleftrightarrow> \<not> contains_fetch_all src"
    unfolding contains_fetch_all_def
    using select_star_shape fetch_all_accepts by blast
  finally show ?thesis .
qed

text \<open>
  C6 (as amended). For every unit of a batch, \<open>remediate_array\<close> returns the text of
  the unit unchanged when the text contains no fetch-all statement, in particular when it
  is empty, and when none of the findings that \<open>analyze_array\<close> reports for the unit
  carries a suggested statement. A text that \<open>remediate_array\<close> has returned may
  still contain a fetch-all statement, so nothing is said of a second run on it beyond
  these two cases.
\<close>

theorem remediate_array_identity:
  assumes "(u, out) \<in> set (remediate_array units)"
  shows "(\<not> contains_fetch_all (code_or_empty u) \<longrightarrow> out = code_or_empty u) \<and>
         (\<forall>fs. (u, fs) \<in> set (analyze_array units) \<longrightarrow>
               (\<forall>f\<in>set fs. suggested_statement f = None) \<longrightarrow> out = code_or_empty u) \<and>
         (code_or_empty u = [] \<longrightarrow> out = [])"
proof (intro conjI impI allI)
  let ?F = "concat_units units"
  let ?A = "build_aliases ?F"
  note out = remediate_array_member[OF assms]
  {
    assume "\<not> contains_fetch_all (code_or_empty u)"
    then have "find_selects (code_or_empty u) = []"
      using find_selects_Nil_iff[of "code_or_empty u"] by blast
    with out show "out = code_or_empty u" by simp
  }
  {
    fix fs
    assume m: "(u, fs) \<in> set (analyze_array units)"
      and n: "\<forall>f\<in>set fs. suggested_statement f = None"
    note fs = analyze_array_member[OF m]
    have "(case suggested_statement r of None \<Rightarrow> []
           | Some t \<Rightarrow> [((start_char_in_unit r, end_char_in_unit r), t)]) = []"
      if "r \<in> set fs" for r
      using n that by simp
    then have "concat (map (\<lambda>r. case suggested_statement r of None \<Rightarrow> []
                 | Some t \<Rightarrow> [((start_char_in_unit r, end_char_in_unit r), t)]) fs) = []"
      by simp
    then have "replacements ?F ?A (find_selects (code_or_empty u)) = []"
      unfolding replacements_analyze[OF finite_aliases_build] fs .
    with out show "out = code_or_empty u" by simp
  }
  {
    assume "code_or_empty u = []"
    with out show "out = []" by (simp add: find_selects_empty)
  }
qed


text \<open>
  Two scenarios. The text that \<open>remediate_array\<close> returns for the unit of the work
  area \<open>wa_spfli\<close> contains no fetch-all statement, and a second run returns it
  unchanged. A unit whose statement has no field of its target read anywhere keeps its
  statement: the finding carries no suggestion and the text is returned unchanged.
\<close>

definition spfli_remediated :: string where
  "spfli_remediated =
     ''SELECT carrid connid FROM spfli'' @ nl @
     ''  INTO CORRESPONDING FIELDS OF wa_spfli. WRITE wa_spfli-carrid. WRITE wa_spfli-connid.''"

definition spfli_remediated_unit :: Unit where
  "spfli_remediated_unit = spfli_unit\<lparr>code := Some spfli_remediated\<rparr>"

definition unused_text :: string where
  "unused_text = ''SELECT * FROM spfli INTO wa_spfli. WRITE lv_total.''"

definition unused_unit :: Unit where
  "unused_unit = spfli_unit\<lparr>code := Some unused_text\<rparr>"

definition unused_finding :: sel_result where
  "unused_finding =
     \<lparr>table = ''spfli'', target_type = Wa, target_name = ''wa_spfli'',
      start_char_in_unit = 0, end_char_in_unit = 34,
      used_fields = [], ambiguous = False,
      suggested_fields = None, suggested_statement = None\<rparr>"

lemma remediate_one_unit:
  "remediate_array [u] =
     [(u, apply_span_replacements (code_or_empty u)
            (replacements (code_or_empty u @ nl) (build_aliases (code_or_empty u @ nl))
               (find_selects (code_or_empty u))))]"
  by (simp add: remediate_array_def concat_units_def Let_def)

lemma spfli_remediate:
  "apply_span_replacements spfli_text
     (replacements (spfli_text @ nl) (build_aliases (spfli_text @ nl)) (find_selects spfli_text))
   = spfli_remediated"
  by code_simp

lemma spfli_remediated_no_select: "find_selects spfli_remediated = []"
  by code_simp

lemma unused_findings:
  "map (analyze_sel (unused_text @ nl) (build_aliases (unused_text @ nl)))
     (find_selects unused_text) = [unused_finding]"
  by code_simp

theorem remediate_array_identity_witness:
  "remediate_array [spfli_unit] = [(spfli_unit, spfli_remediated)] \<and>
   \<not> contains_fetch_all (code_or_empty spfli_remediated_unit) \<and>
   remediate_array [spfli_remediated_unit] = [(spfli_remediated_unit, spfli_remediated)] \<and>
   analyze_array [unused_unit] = [(unused_unit, [unused_finding])] \<and>
   suggested_statement unused_finding = None \<and>
   remediate_array [unused_unit] = [(unused_unit, unused_text)]"
proof -
  have c1: "code_or_empty spfli_unit = spfli_text"
    by (simp add: code_or_empty_def spfli_unit_def)
  have c2: "code_or_empty spfli_remediated_unit = spfli_remediated"
    by (simp add: code_or_empty_def spfli_remediated_unit_def)
  have c3: "code_or_empty unused_unit = unused_text"
    by (simp add: code_or_empty_def unused_unit_def)
  have first: "remediate_array [spfli_unit] = [(spfli_unit, spfli_remediated)]"
    using spfli_remediate by (simp add: remediate_one_unit c1)
  have none: "\<not> contains_fetch_all (code_or_empty spfli_remediated_unit)"
    using find_selects_Nil_iff[of spfli_remediated] spfli_remediated_no_select c2 by simp
  obtain out where out: "remediate_array [spfli_remediated_unit] = [(spfli_remediated_unit, out)]"
    by (simp add: remediate_one_unit)
  then have "(spfli_remediated_unit, out) \<in> set (remediate_array [spfli_remediated_unit])"
    by simp
  from remediate_array_identity [OF this] none c2
  have second: "out = spfli_remediated" by simp
  have an: "analyze_array [unused_unit] = [(unused_unit, [unused_finding])]"
    using unused_findings by (simp add: analyze_one_unit c3)
  have sn: "suggested_statement unused_finding = None"
    by (simp add: unused_finding_def)
  obtain out' where out': "remediate_array [unused_unit] = [(unused_unit, out')]"
    by (simp add: remediate_one_unit)
  then have "(unused_unit, out') \<in> set (remediate_array [unused_unit])"
    by simp
  from remediate_array_identity [OF this] an sn c3
  have third: "out' = unused_text" by simp
  from first none out second an sn out' third show ?thesis by simp
qed

text \<open>
  A statement with a second one in its body, as in a subquery. The first run locates
  the outer statement only, since the matches of \<open>finditer\<close> do not overlap, and
  rewrites it; the text it returns still contains the inner statement, which the second
  run locates and rewrites. So \<open>remediate_array\<close> changes a text that it has returned.
\<close>

definition nested_text :: string where
  "nested_text =
     ''SELECT * FROM mara WHERE matnr IN ( SELECT * FROM marc ). WRITE mara-matnr. WRITE marc-werks.''"

definition nested_once :: string where
  "nested_once =
     ''SELECT matnr FROM maraWHERE matnr IN ( SELECT * FROM marc ). WRITE mara-matnr. WRITE marc-werks.''"

definition nested_twice :: string where
  "nested_twice =
     ''SELECT matnr FROM maraWHERE matnr IN ( SELECT werks FROM marc). WRITE mara-matnr. WRITE marc-werks.''"

definition nested_unit :: Unit where
  "nested_unit = spfli_unit\<lparr>code := Some nested_text\<rparr>"

definition nested_once_unit :: Unit where
  "nested_once_unit = spfli_unit\<lparr>code := Some nested_once\<rparr>"

lemma nested_remediate:
  "apply_span_replacements nested_text
     (replacements (nested_text @ nl) (build_aliases (nested_text @ nl)) (find_selects nested_text))
   = nested_once"
  by code_simp

lemma nested_once_remediate:
  "apply_span_replacements nested_once
     (replacements (nested_once @ nl) (build_aliases (nested_once @ nl)) (find_selects nested_once))
   = nested_twice"
  by code_simp

lemma nested_differ: "nested_twice \<noteq> nested_once"
  by code_simp

theorem remediate_twice_counterexample:
  "remediate_array [nested_unit] = [(nested_unit, nested_once)] \<and>
   remediate_array [nested_once_unit] = [(nested_once_unit, nested_twice)] \<and>
   nested_twice \<noteq> nested_once"
proof -
  have c1: "code_or_empty nested_unit = nested_text"
    by (simp add: code_or_empty_def nested_unit_def)
  have c2: "code_or_empty nested_once_unit = nested_once"
    by (simp add: code_or_empty_def nested_once_unit_def)
  have "remediate_array [nested_unit] = [(nested_unit, nested_once)]"
    using nested_remediate by (simp add: remediate_one_unit c1)
  moreover have "remediate_array [nested_once_unit] = [(nested_once_unit, nested_twice)]"
    using nested_once_remediate by (simp add: remediate_one_unit c2)
  ultimately show ?thesis using nested_differ by simp
qed


section \<open>The order in which a set is iterated\<close>

text \<open>
  Python iterates a set in an order that the program does not control. Here the two
  endpoints are written once more with that order as a parameter: \<open>ord S\<close> is the
  list in which the elements of the set \<open>S\<close> come. The loops of
  \<open>collect_used_fields\<close> run over \<open>ord names\<close>, the first with its \<open>break\<close>;
  \<open>sorted(used)\<close> sorts the list \<open>ord used\<close>.
\<close>

definition valid_order :: "(string set \<Rightarrow> string list) \<Rightarrow> bool" where
  "valid_order ord = (\<forall>S. finite S \<longrightarrow> set (ord S) = S \<and> distinct (ord S))"

fun ambiguous_loop :: "string \<Rightarrow> string list \<Rightarrow> bool" where
  "ambiguous_loop flat_source [] = False"
| "ambiguous_loop flat_source (n # ns) =
     (if re_search True (ASSIGN_COMPONENT_RE n) flat_source \<noteq> None then True
      else ambiguous_loop flat_source ns)"

fun fields_loop :: "string \<Rightarrow> string list \<Rightarrow> string set \<Rightarrow> string set" where
  "fields_loop flat_source [] acc = acc"
| "fields_loop flat_source (n # ns) acc =
     fields_loop flat_source ns
       (fold (\<lambda>m a. insert (map lower (group_text flat_source m ''field'')) a)
          (finditer False (STRUCT_FIELD_RE n) flat_source) acc)"

definition collect_used_fields_iter ::
  "(string set \<Rightarrow> string list) \<Rightarrow> string \<Rightarrow> string \<Rightarrow> string \<Rightarrow> ttype \<Rightarrow> string
     \<Rightarrow> (string \<rightharpoonup> string set) \<Rightarrow> string set \<times> bool" where
  "collect_used_fields_iter ord flat_source select_stmt_text tbl tt tn aliases =
     (let ns = ord (target_names tbl tt tn aliases)
      in (fields_loop flat_source ns {}, ambiguous_loop flat_source ns))"

definition analyze_sel_iter ::
  "(string set \<Rightarrow> string list) \<Rightarrow> string \<Rightarrow> (string \<rightharpoonup> string set) \<Rightarrow> sel \<Rightarrow> sel_result" where
  "analyze_sel_iter ord flat_source aliases s =
     (let (used, ambig) = collect_used_fields_iter ord flat_source (sel_text s) (table s)
                            (target_type s) (target_name s) aliases;
          sug_fields = (if used \<noteq> {} \<and> \<not> ambig then Some (sort (ord used)) else None);
          sug_stmt = (case sug_fields of
                        None \<Rightarrow> None
                      | Some fs \<Rightarrow>
                          if fs \<noteq> []
                          then Some (build_replacement_stmt (sel_text s) (table s) fs
                                       (target_type s) (target_name s))
                          else None)
      in \<lparr>table = table s, target_type = target_type s, target_name = target_name s,
          start_char_in_unit = fst (span s), end_char_in_unit = snd (span s),
          used_fields = sort (ord used), ambiguous = ambig,
          suggested_fields = sug_fields, suggested_statement = sug_stmt\<rparr>)"

definition analyze_array_iter ::
  "(string set \<Rightarrow> string list) \<Rightarrow> Unit list \<Rightarrow> (Unit \<times> sel_result list) list" where
  "analyze_array_iter ord units =
     (let flat_source = concat_units units;
          aliases = build_aliases flat_source
      in map (\<lambda>u. (u, map (analyze_sel_iter ord flat_source aliases)
                          (find_selects (code_or_empty u))))
           units)"

definition replacements_iter ::
  "(string set \<Rightarrow> string list) \<Rightarrow> string \<Rightarrow> (string \<rightharpoonup> string set) \<Rightarrow> sel list
     \<Rightarrow> ((nat \<times> nat) \<times> string) list" where
  "replacements_iter ord flat_source aliases selects =
     concat (map (\<lambda>s.
       let (used, ambig) = collect_used_fields_iter ord flat_source (sel_text s) (table s)
                             (target_type s) (target_name s) aliases
       in if used \<noteq> {} \<and> \<not> ambig
          then [(span s, build_replacement_stmt (sel_text s) (table s)
                           (sort (ord used)) (target_type s) (target_name s))]
          else []) selects)"

definition remediate_array_iter ::
  "(string set \<Rightarrow> string list) \<Rightarrow> Unit list \<Rightarrow> (Unit \<times> string) list" where
  "remediate_array_iter ord units =
     (let flat_source = concat_units units;
          aliases = build_aliases flat_source
      in map (\<lambda>u.
           let src = code_or_empty u
           in (u, apply_span_replacements src
                    (replacements_iter ord flat_source aliases (find_selects src))))
           units)"

lemma ambiguous_loop_iff:
  "ambiguous_loop flat_source ns =
     (\<exists>n\<in>set ns. re_search True (ASSIGN_COMPONENT_RE n) flat_source \<noteq> None)"
  by (induction ns) auto

lemma fold_insert_image: "fold (\<lambda>m a. insert (f m) a) ms acc = acc \<union> f ` set ms"
  by (induction ms arbitrary: acc) auto

lemma fields_loop_union:
  "fields_loop flat_source ns acc = acc \<union> (\<Union>n\<in>set ns. fields_of_name flat_source n)"
  by (induction ns arbitrary: acc) (auto simp: fold_insert_image fields_of_name_def)

lemma sort_valid_order:
  assumes "valid_order ord" and "finite S"
  shows "sort (ord S) = sorted_list_of_set S"
proof -
  from assms have "set (ord S) = S" "distinct (ord S)" by (auto simp: valid_order_def)
  then show ?thesis
    using sorted_list_of_set_sort_remdups[of "ord S"] by (simp add: distinct_remdups_id)
qed

lemma collect_used_fields_iter_eq:
  assumes "valid_order ord" and "finite_aliases aliases"
  shows "collect_used_fields_iter ord flat_source stmt tbl tt tn aliases =
           collect_used_fields flat_source stmt tbl tt tn aliases"
proof -
  have "finite (target_names tbl tt tn aliases)"
    by (rule finite_target_names[OF assms(2)])
  with assms(1) have "set (ord (target_names tbl tt tn aliases)) = target_names tbl tt tn aliases"
    by (simp add: valid_order_def)
  then show ?thesis
    by (simp add: collect_used_fields_iter_def collect_used_fields_def Let_def
        ambiguous_loop_iff fields_loop_union)
qed

lemma analyze_sel_iter_eq:
  assumes "valid_order ord" and "finite_aliases aliases"
  shows "analyze_sel_iter ord flat_source aliases s = analyze_sel flat_source aliases s"
  by (simp add: analyze_sel_iter_def analyze_sel_def collect_used_fields_iter_eq[OF assms]
      Let_def split_def
      sort_valid_order[OF assms(1) finite_used[OF assms(2), of flat_source "sel_text s" "table s"
      "target_type s" "target_name s"]])

lemma replacements_iter_eq:
  assumes "valid_order ord" and "finite_aliases aliases"
  shows "replacements_iter ord flat_source aliases sels = replacements flat_source aliases sels"
proof -
  have "sort (ord (fst (collect_used_fields flat_source (sel_text s) (table s)
                     (target_type s) (target_name s) aliases))) =
        sorted_list_of_set (fst (collect_used_fields flat_source (sel_text s) (table s)
                     (target_type s) (target_name s) aliases))" for s :: sel
    by (rule sort_valid_order[OF assms(1) finite_used[OF assms(2)]])
  note srt = this
  show ?thesis
    by (simp add: replacements_iter_def replacements_def collect_used_fields_iter_eq[OF assms]
        Let_def split_def srt cong: if_cong)
qed

lemma analyze_array_iter_eq:
  "valid_order ord \<Longrightarrow> analyze_array_iter ord units = analyze_array units"
  by (simp add: analyze_array_iter_def analyze_array_def Let_def
      analyze_sel_iter_eq finite_aliases_build)

lemma remediate_array_iter_eq:
  "valid_order ord \<Longrightarrow> remediate_array_iter ord units = remediate_array units"
  by (simp add: remediate_array_iter_def remediate_array_def Let_def
      replacements_iter_eq finite_aliases_build)

text \<open>
  C9. \<open>analyze_array\<close> and \<open>remediate_array\<close> are functions of the batch alone:
  whatever the order in which the set of names and the set of used fields are iterated,
  both return the same output, the one of the definitions written with sets above; and
  both return the units of the batch as they were given, in input order.
\<close>

theorem endpoints_deterministic:
  assumes "valid_order ord1" and "valid_order ord2"
  shows "analyze_array_iter ord1 units = analyze_array_iter ord2 units \<and>
         remediate_array_iter ord1 units = remediate_array_iter ord2 units \<and>
         analyze_array_iter ord1 units = analyze_array units \<and>
         remediate_array_iter ord1 units = remediate_array units \<and>
         map fst (analyze_array_iter ord1 units) = units \<and>
         map fst (remediate_array_iter ord1 units) = units"
proof -
  have a: "analyze_array_iter ord1 units = analyze_array units"
    "analyze_array_iter ord2 units = analyze_array units"
    using assms by (simp_all add: analyze_array_iter_eq)
  have r: "remediate_array_iter ord1 units = remediate_array units"
    "remediate_array_iter ord2 units = remediate_array units"
    using assms by (simp_all add: remediate_array_iter_eq)
  have "map fst (analyze_array units) = units"
    by (simp add: analyze_array_def Let_def comp_def)
  moreover have "map fst (remediate_array units) = units"
    by (simp add: remediate_array_def Let_def comp_def)
  ultimately show ?thesis using a r by simp
qed

text \<open>The scenario of the internal table \<open>it_mara\<close> read through the work area \<open>wa\<close>.\<close>

definition mara_loop_text :: string where
  "mara_loop_text =
     ''SELECT * FROM mara INTO TABLE it_mara. LOOP AT it_mara INTO wa. WRITE wa-mtart. WRITE wa-matnr. ENDLOOP.''"

definition mara_loop_unit :: Unit where
  "mara_loop_unit = spfli_unit\<lparr>code := Some mara_loop_text\<rparr>"

definition mara_loop_finding :: sel_result where
  "mara_loop_finding =
     \<lparr>table = ''mara'', target_type = Itab, target_name = ''it_mara'',
      start_char_in_unit = 0, end_char_in_unit = 38,
      used_fields = [''matnr'', ''mtart''], ambiguous = False,
      suggested_fields = Some [''matnr'', ''mtart''],
      suggested_statement =
        Some (''SELECT matnr mtart FROM mara'' @ nl @
              ''  INTO CORRESPONDING FIELDS OF TABLE it_mara.'')\<rparr>"

lemma mara_loop_findings:
  "map (analyze_sel (mara_loop_text @ nl) (build_aliases (mara_loop_text @ nl)))
     (find_selects mara_loop_text) = [mara_loop_finding]"
  by code_simp

lemma mara_loop_names:
  "target_names ''mara'' Itab ''it_mara'' (build_aliases (mara_loop_text @ nl)) =
     {''it_mara'', ''wa''}"
  by code_simp

definition descending :: "string set \<Rightarrow> string list" where
  "descending S = rev (sorted_list_of_set S)"

theorem endpoints_deterministic_witness:
  "valid_order sorted_list_of_set \<and> valid_order descending \<and>
   sorted_list_of_set {''it_mara'', ''wa''} \<noteq> descending {''it_mara'', ''wa''} \<and>
   analyze_array_iter sorted_list_of_set [mara_loop_unit] =
     analyze_array_iter descending [mara_loop_unit] \<and>
   analyze_array_iter descending [mara_loop_unit] = [(mara_loop_unit, [mara_loop_finding])] \<and>
   remediate_array_iter sorted_list_of_set [mara_loop_unit] =
     remediate_array_iter descending [mara_loop_unit]"
proof -
  have v1: "valid_order sorted_list_of_set" by (simp add: valid_order_def)
  have v2: "valid_order descending" by (simp add: valid_order_def descending_def)
  have d: "sorted_list_of_set {''it_mara'', ''wa''} \<noteq> descending {''it_mara'', ''wa''}"
    unfolding descending_def by code_simp
  have c: "code_or_empty mara_loop_unit = mara_loop_text"
    by (simp add: code_or_empty_def mara_loop_unit_def)
  have e: "analyze_array [mara_loop_unit] = [(mara_loop_unit, [mara_loop_finding])]"
    using mara_loop_findings by (simp add: analyze_one_unit c)
  from endpoints_deterministic [OF v1 v2, of "[mara_loop_unit]"]
       endpoints_deterministic [OF v2 v1, of "[mara_loop_unit]"] e v1 v2 d
  show ?thesis by simp
qed

end
